theory Spec2Isabelle
  imports Main "HOL-Library.Word" "HOL-Library.Signed_Division" "HOL-Library.While_Combinator"
begin

section \<open>Energy model\<close>

text \<open>
  The table \<^verbatim>\<open>extract_energy\<close> of \<^verbatim>\<open>game-world.c\<close>, an array of 200 unsigned
  bytes, entry by entry and row by row as the source lists it.
\<close>

definition extract_energy :: "8 word list" where
  "extract_energy =
   [
    \<comment> \<open>Slow\<close> 1,  1,  1,  1,  1,  1,  1,  1,  1,  1,
    \<comment> \<open>Slow\<close> 1,  1,  1,  1,  1,  1,  1,  1,  1,  1,
    \<comment> \<open>Slow\<close> 1,  1,  1,  1,  1,  1,  1,  1,  1,  1,
    \<comment> \<open>Slow\<close> 1,  1,  1,  1,  1,  1,  1,  1,  1,  1,
    \<comment> \<open>Slow\<close> 1,  1,  1,  1,  1,  1,  1,  1,  1,  1,
    \<comment> \<open>Slow\<close> 1,  1,  1,  1,  1,  1,  1,  1,  1,  1,
    \<comment> \<open>S-50\<close> 1,  1,  1,  1,  1,  1,  1,  1,  1,  1,
    \<comment> \<open>S-40\<close> 2,  2,  2,  2,  2,  2,  2,  2,  2,  2,
    \<comment> \<open>S-30\<close> 2,  2,  2,  2,  2,  2,  2,  3,  3,  3,
    \<comment> \<open>S-20\<close> 3,  3,  3,  3,  3,  4,  4,  4,  4,  4,
    \<comment> \<open>S-10\<close> 5,  5,  5,  5,  6,  6,  7,  7,  8,  9,
    \<comment> \<open>Norm\<close> 10, 11, 12, 13, 14, 15, 16, 17, 18, 19,
    \<comment> \<open>F+10\<close> 20, 21, 22, 23, 24, 25, 26, 27, 28, 29,
    \<comment> \<open>F+20\<close> 30, 31, 32, 33, 34, 35, 36, 36, 37, 37,
    \<comment> \<open>F+30\<close> 38, 38, 39, 39, 40, 40, 40, 41, 41, 41,
    \<comment> \<open>F+40\<close> 42, 42, 42, 43, 43, 43, 44, 44, 44, 44,
    \<comment> \<open>F+50\<close> 45, 45, 45, 45, 45, 46, 46, 46, 46, 46,
    \<comment> \<open>F+60\<close> 47, 47, 47, 47, 47, 48, 48, 48, 48, 48,
    \<comment> \<open>F+70\<close> 49, 49, 49, 49, 49, 49, 49, 49, 49, 49,
    \<comment> \<open>Fast\<close> 49, 49, 49, 49, 49, 49, 49, 49, 49, 49]"

text \<open>A list is non-decreasing when no entry exceeds its successor.\<close>

fun nondecreasing :: "'a::linorder list \<Rightarrow> bool" where
  "nondecreasing [] = True"
| "nondecreasing [x] = True"
| "nondecreasing (x # y # zs) = (x \<le> y \<and> nondecreasing (y # zs))"

fun all_between :: "'a::linorder \<Rightarrow> 'a \<Rightarrow> 'a list \<Rightarrow> bool" where
  "all_between lo hi [] = True"
| "all_between lo hi (x # xs) = (lo \<le> x \<and> x \<le> hi \<and> all_between lo hi xs)"

section \<open>Faults and control flow\<close>

text \<open>
  Undefined behaviour of the C code is a value of the model: a division or remainder by
  zero, a read outside the energy table, the overflow of the signed 32-bit turn counter,
  and a loop that does not end.
\<close>

datatype fault = Division_by_zero | Index_out_of_bounds | Signed_overflow | Nontermination

text \<open>
  A block of statements either faults, leaves the enclosing function with \<^verbatim>\<open>return\<close>,
  or falls through to the next statement.
\<close>

datatype 'a flow = Fault fault | Return 'a | Next 'a

fun steps :: "('a \<Rightarrow> 'a flow) list \<Rightarrow> 'a \<Rightarrow> 'a flow" where
  "steps [] s = Next s"
| "steps (f # fs) s = (case f s of Next s' \<Rightarrow> steps fs s' | Return s' \<Rightarrow> Return s' | Fault e \<Rightarrow> Fault e)"

text \<open>C's \<^verbatim>\<open>a % b\<close> and \<^verbatim>\<open>a / b\<close> on signed integers: truncation towards zero.\<close>

definition c_mod :: "int \<Rightarrow> int \<Rightarrow> fault + int" where
  "c_mod a b = (if b = 0 then Inl Division_by_zero else Inr (a smod b))"

definition c_div :: "int \<Rightarrow> int \<Rightarrow> fault + int" where
  "c_div a b = (if b = 0 then Inl Division_by_zero else Inr (a sdiv b))"

section \<open>Grid locations\<close>

text \<open>\<^verbatim>\<open>struct loc\<close> with its fields \<^verbatim>\<open>x\<close> and \<^verbatim>\<open>y\<close>.\<close>

datatype loc = Loc (loc_x: int) (loc_y: int)

definition loc_sum :: "loc \<Rightarrow> loc \<Rightarrow> loc" where
  "loc_sum a b = Loc (loc_x a + loc_x b) (loc_y a + loc_y b)"

definition loc_eq :: "loc \<Rightarrow> loc \<Rightarrow> bool" where
  "loc_eq a b = (loc_x a = loc_x b \<and> loc_y a = loc_y b)"

text \<open>
  Modelled from the spec: the table \<^verbatim>\<open>ddgrid_ddd\<close> is declared outside the sources at
  hand; the spec calls its entries the 8 neighbours of a cell. The offsets are listed in
  the order of the game's direction table (south, north, east, west, then the diagonals).
\<close>

definition ddgrid_ddd :: "loc list" where
  "ddgrid_ddd = [Loc 0 1, Loc 0 (-1), Loc 1 0, Loc (-1) 0,
                 Loc 1 1, Loc (-1) 1, Loc 1 (-1), Loc (-1) (-1)]"

section \<open>The level\<close>

text \<open>
  \<^verbatim>\<open>struct chunk\<close>, as far as the functions of \<^verbatim>\<open>game-world.c\<close> read and write it:
  the dimensions, the two heat maps \<^verbatim>\<open>noise.grids\<close> and \<^verbatim>\<open>scent.grids\<close>, the name, and
  the two terrain tests \<^verbatim>\<open>square_isnoflow\<close> and \<^verbatim>\<open>square_isnoscent\<close> as properties of
  a cell. The cells of a heat map are unsigned 16-bit numbers (\<^verbatim>\<open>uint16_t\<close> in
  \<^verbatim>\<open>struct heatmap\<close> of the game's header for levels, which is outside the sources at
  hand): storing a number in a cell reduces it modulo 65536, and \<^verbatim>\<open>++\<close> on a cell that
  holds 65535 gives 0.
\<close>

record chunk =
  name :: string
  height :: int
  width :: int
  noise :: "loc \<Rightarrow> 16 word"
  scent :: "loc \<Rightarrow> 16 word"
  square_isnoflow :: "loc \<Rightarrow> bool"
  square_isnoscent :: "loc \<Rightarrow> bool"

text \<open>
  Modelled from the spec: \<^verbatim>\<open>square_in_bounds\<close> is defined outside the sources at
  hand; a cell is in bounds when it lies on the level's grid.
\<close>

definition square_in_bounds :: "chunk \<Rightarrow> loc \<Rightarrow> bool" where
  "square_in_bounds c g =
     (0 \<le> loc_x g \<and> loc_x g < width c \<and> 0 \<le> loc_y g \<and> loc_y g < height c)"

text \<open>
  The cells that the loops \<^verbatim>\<open>for (y = 1; y < height - 1; y++)\<close>,
  \<^verbatim>\<open>for (x = 1; x < width - 1; x++)\<close> visit, row by row.
\<close>

definition inner_cells :: "chunk \<Rightarrow> loc list" where
  "inner_cells c = concat (map (\<lambda>y. map (\<lambda>x. Loc x y) [1..width c - 2]) [1..height c - 2])"

section \<open>Noise\<close>

text \<open>
  The state of the loop of \<^verbatim>\<open>make_noise\<close>: the noise map, the queue (first element
  first), and the local variable \<^verbatim>\<open>noise\<close>. The queue of the source holds cells encoded
  as integers by \<^verbatim>\<open>grid_to_i\<close> and decoded by \<^verbatim>\<open>i_to_grid\<close>; the queue of the model
  holds the cells themselves. The local \<^verbatim>\<open>noise\<close> is an \<^verbatim>\<open>int\<close> that starts at 0 and is
  only ever increased by 1 or 4; it is a natural number here. A cell is compared with it
  as a number (\<^verbatim>\<open>grids[y][x] == noise\<close> promotes the cell to \<^verbatim>\<open>int\<close>), and it is stored
  in a cell modulo 65536.
\<close>

type_synonym flood = "(loc \<Rightarrow> 16 word) \<times> loc list \<times> nat"

text \<open>One pass of the loop over the 8 directions, for the direction \<open>d\<close>.\<close>

definition noise_child :: "chunk \<Rightarrow> loc \<Rightarrow> nat \<Rightarrow> loc \<Rightarrow> loc \<Rightarrow> (loc \<Rightarrow> 16 word) \<times> loc list
    \<Rightarrow> (loc \<Rightarrow> 16 word) \<times> loc list" where
  "noise_child c pgrid lvl nxt d st =
     (let gr = fst st; q = snd st; grid = loc_sum nxt d in
      if \<not> square_in_bounds c grid then st
      else if square_isnoflow c grid then st
      else if gr grid \<noteq> 0 then st
      else if loc_eq pgrid grid then st
      else (gr(grid := word_of_nat lvl), q @ [grid]))"

text \<open>The body of \<^verbatim>\<open>while (q_len(queue) > 0)\<close>.\<close>

definition noise_step :: "chunk \<Rightarrow> loc \<Rightarrow> nat \<Rightarrow> flood \<Rightarrow> flood" where
  "noise_step c pgrid noise_increment st =
     (case st of (gr, q, lvl) \<Rightarrow>
        (case q of
           [] \<Rightarrow> st
         | nxt # rest \<Rightarrow>
             if unat (gr nxt) = lvl then (gr, rest @ [nxt], lvl + noise_increment)
             else (let r = fold (noise_child c pgrid lvl nxt) ddgrid_ddd (gr, rest)
                   in (fst r, snd r, lvl))))"

definition noise_loop :: "chunk \<Rightarrow> loc \<Rightarrow> nat \<Rightarrow> flood \<Rightarrow> flood option" where
  "noise_loop c pgrid noise_increment =
     while_option (\<lambda>st. fst (snd st) \<noteq> []) (noise_step c pgrid noise_increment)"

text \<open>
  \<^verbatim>\<open>make_noise\<close>, for the level \<open>c\<close>, the player's cell and the player's counter
  \<^verbatim>\<open>timed[TMD_COVERTRACKS]\<close>. The result is \<open>None\<close> when the loop does not end.
\<close>

definition silence :: "chunk \<Rightarrow> loc \<Rightarrow> 16 word" where
  "silence c = fold (\<lambda>g gr. gr(g := 0)) (inner_cells c) (noise c)"

definition make_noise :: "chunk \<Rightarrow> loc \<Rightarrow> int \<Rightarrow> chunk option" where
  "make_noise c pgrid covertracks =
     (let noise_increment = (if covertracks \<noteq> 0 then 4 else 1);
          gr = (silence c)(pgrid := 0)
      in map_option (\<lambda>st. c\<lparr>noise := fst st\<rparr>)
           (noise_loop c pgrid noise_increment (gr, [pgrid], 0 + noise_increment)))"

section \<open>Scent\<close>

definition scent_strength :: "int list list" where
  "scent_strength =
     [[2, 2, 2, 2, 2],
      [2, 1, 1, 1, 2],
      [2, 1, 0, 1, 2],
      [2, 1, 1, 1, 2],
      [2, 2, 2, 2, 2]]"

text \<open>The first loop of \<^verbatim>\<open>update_scent\<close>: every cell that holds scent ages by one.\<close>

definition age_cell :: "loc \<Rightarrow> (loc \<Rightarrow> 16 word) \<Rightarrow> (loc \<Rightarrow> 16 word)" where
  "age_cell g gr = (if gr g > 0 then gr(g := gr g + 1) else gr)"

definition age_scent :: "chunk \<Rightarrow> loc \<Rightarrow> 16 word" where
  "age_scent c = fold age_cell (inner_cells c) (scent c)"

text \<open>
  One pass of the loop over the 8 directions in the second part of \<^verbatim>\<open>update_scent\<close>:
  \<open>ky\<close> and \<open>kx\<close> are the loop variables \<^verbatim>\<open>y\<close> and \<^verbatim>\<open>x\<close>, \<open>cell\<close> is the local
  \<^verbatim>\<open>scent\<close>, and the boolean is \<^verbatim>\<open>add_scent\<close>. The comparison of a cell with
  \<^verbatim>\<open>new_scent - 1\<close> is one of numbers of type \<^verbatim>\<open>int\<close>.
\<close>

definition scent_adjacent :: "chunk \<Rightarrow> (loc \<Rightarrow> 16 word) \<Rightarrow> nat \<Rightarrow> nat \<Rightarrow> loc \<Rightarrow> int \<Rightarrow> loc
    \<Rightarrow> bool \<Rightarrow> bool" where
  "scent_adjacent c gr ky kx cell new_scent d add_scent =
     (let adj = loc_sum cell d in
      if \<not> square_in_bounds c adj then add_scent
      else (let a = (if kx = 2 \<and> ky = 2 then True else add_scent)
            in if uint (gr adj) = new_scent - 1 then True else a))"

text \<open>The body of the two loops over the kernel, for the kernel position \<open>(ky, kx)\<close>.\<close>

definition lay_scent :: "chunk \<Rightarrow> loc \<Rightarrow> nat \<times> nat \<Rightarrow> (loc \<Rightarrow> 16 word) \<Rightarrow> (loc \<Rightarrow> 16 word)" where
  "lay_scent c pgrid k gr =
     (let ky = fst k; kx = snd k;
          new_scent = scent_strength ! ky ! kx;
          cell = Loc (int kx + loc_x pgrid - 2) (int ky + loc_y pgrid - 2)
      in if \<not> square_in_bounds c cell then gr
         else if square_isnoscent c cell then gr
         else if \<not> fold (scent_adjacent c gr ky kx cell new_scent) ddgrid_ddd False then gr
         else gr(cell := word_of_int new_scent))"

definition kernel :: "(nat \<times> nat) list" where
  "kernel = concat (map (\<lambda>ky. map (\<lambda>kx. (ky, kx)) [0..<5]) [0..<5])"

text \<open>
  \<^verbatim>\<open>update_scent\<close>, for the level, the player's cell and the player's counter
  \<^verbatim>\<open>timed[TMD_COVERTRACKS]\<close>.
\<close>

definition update_scent :: "chunk \<Rightarrow> loc \<Rightarrow> int \<Rightarrow> chunk" where
  "update_scent c pgrid covertracks =
     (let aged = age_scent c
      in if covertracks \<noteq> 0 then c\<lparr>scent := aged\<rparr>
         else c\<lparr>scent := fold (lay_scent c pgrid) kernel aged\<rparr>)"

section \<open>The player, the world and the collaborators\<close>

text \<open>
  The indices of \<^verbatim>\<open>player->timed[]\<close>: the entries that the modelled functions name,
  and any other entry of the list by its number.
\<close>

datatype tmd = TMD_FOOD | TMD_CUT | TMD_POISONED | TMD_STUN | TMD_BLOODLUST | TMD_HEAL
  | TMD_BLACKBREATH | TMD_PARALYZED | TMD_COVERTRACKS | TMD_COMMAND | TMD_OTHER nat

datatype player_flag = PF_UNLIGHT | PF_ROCK

datatype object_flag = OF_REGEN | OF_SLOW_DIGEST | OF_DRAIN_EXP

datatype update_flag = PU_BONUS | PU_HP | PU_SPELLS | PU_INVEN

datatype notice_flag = PN_COMBINE

datatype stat = STAT_STR | STAT_CON

datatype exert_flag = PY_EXERT_HP | PY_EXERT_CUT | PY_EXERT_SLOW

datatype message_type = MSG_AMBIENT_DAY | MSG_AMBIENT_NITE | MSG_AMBIENT_DNG1 | MSG_AMBIENT_DNG2
  | MSG_AMBIENT_DNG3 | MSG_AMBIENT_DNG4 | MSG_AMBIENT_DNG5 | MSG_TPLEVEL

datatype effect_index = EF_HEAL_HP | EF_DESTRUCTION

datatype game_event = EVENT_ANIMATE | EVENT_REFRESH | EVENT_MESSAGE_FLUSH | EVENT_NEW_LEVEL_DISPLAY

text \<open>
  The part of the global state that the modelled functions read or write by name:
  fields of \<^verbatim>\<open>struct player\<close> (\<open>grid\<close> to \<open>speed\<close>, the last being
  \<^verbatim>\<open>player->state.speed\<close>), fields of \<^verbatim>\<open>player->upkeep\<close> (\<open>playing\<close> to
  \<open>health_who\<close>, the last recording whether the pointer is set), the level \<^verbatim>\<open>cave\<close>
  and the flag \<^verbatim>\<open>character_dungeon\<close>. Everything else (monsters, objects, traps, the
  command queue, the random number generator, the screen) is the field \<open>elsewhere\<close>, which
  only the collaborators touch. The widths of the integer fields are declared outside
  the sources at hand; they are integers here.
\<close>

record 'x world =
  grid :: loc
  depth :: int
  max_depth :: int
  recall_depth :: int
  lev :: int
  max_lev :: int
  energy :: int
  chp :: int
  mhp :: int
  exp :: int
  is_dead :: bool
  word_recall :: int
  deep_descent :: int
  timed :: "tmd \<Rightarrow> int"
  speed :: int
  playing :: bool
  generate_level :: bool
  arena_level :: bool
  energy_use :: int
  update :: "update_flag set"
  notice :: "notice_flag set"
  health_who :: bool
  cave :: chunk
  character_dungeon :: bool
  elsewhere :: 'x

text \<open>
  The globals \<^verbatim>\<open>turn\<close> (a signed 32-bit integer, kept within its range by
  \<open>count_turn\<close> below) and \<^verbatim>\<open>daycount\<close> (an unsigned 16-bit integer), which only
  \<^verbatim>\<open>game-world.c\<close> writes while the game runs, beside the rest of the world.
\<close>

record 'x game =
  turn :: int
  daycount :: "16 word"
  world :: "'x world"

text \<open>
  The constants \<^verbatim>\<open>z_info->...\<close> and the macros \<^verbatim>\<open>PY_FOOD_HUNGRY\<close> and
  \<^verbatim>\<open>PY_FOOD_STARVE\<close> that the modelled functions read, and the indices from 0 below
  \<^verbatim>\<open>TMD_MAX\<close> in their order. Their values come from the game's data files and
  headers; they are parameters of the model.
\<close>

record angband_constants =
  move_energy :: int
  day_length :: int
  store_turns :: int
  food_value :: int
  level_monster_max :: int
  alloc_monster_chance :: int
  max_sight :: int
  life_drain_percent :: int
  stair_skip :: int
  PY_FOOD_HUNGRY :: int
  PY_FOOD_STARVE :: int
  timed_effects :: "tmd list"

text \<open>
  The functions that \<^verbatim>\<open>game-world.c\<close> calls and that are defined elsewhere, by the
  shape of their use: procedures that change the world, tests, integer functions and
  draws of the random number generator. A call carries the arguments of the source
  (the player and the level, which are always the globals, are left out). The static
  helper \<^verbatim>\<open>recharge_objects\<close>, the loop over the curses in \<^verbatim>\<open>decrease_timeouts\<close>, the
  loop over the traps in \<^verbatim>\<open>process_world\<close>, and \<^verbatim>\<open>process_player\<close> with
  \<^verbatim>\<open>process_player_cleanup\<close> work on the objects, curses, traps and commands of the
  collaborators; each is one procedure here. The commanded monster of
  \<^verbatim>\<open>decrease_timeouts\<close> is the one that \<^verbatim>\<open>get_commanded_monster\<close> returns.
\<close>

datatype call =
    Compact_monsters int
  | Sound message_type
  | Msg string
  | Msgt message_type string
  | Cave_illuminate bool
  | Pick_and_place_distant_monster loc int bool int
  | Take_hit int string
  | Player_over_exert "exert_flag set" int int
  | Effect_simple effect_index string int int int int int
  | Player_stat_dec stat bool
  | Player_exp_lose int bool
  | Player_dec_timed tmd int bool bool
  | Player_set_timed tmd int bool bool
  | Player_inc_timed tmd int bool bool bool
  | Player_clear_timed tmd bool bool
  | Disturb
  | Player_regen_hp
  | Player_regen_mana
  | Mon_clear_timed_command
  | Mon_dec_timed_command int
  | Curse_timeouts
  | Player_update_light
  | Equip_learn_flag object_flag
  | Recharge_objects
  | Equip_learn_after_time
  | Trap_timeouts
  | Cmdq_flush
  | Dungeon_change_level int
  | Player_set_recall_depth
  | Target_set_monster
  | Health_track
  | Event_signal game_event
  | Notice_stuff
  | Handle_stuff
  | Update_stuff
  | Redraw_stuff
  | Display_feeling bool
  | Search
  | Cmd_disable_repeat_floor_item
  | Process_player_cleanup
  | Process_player
  | Process_monsters int
  | Reset_monsters
  | Prepare_next_level
  | Kill_arena_monster

datatype query =
    Player_has player_flag
  | Player_of_has object_flag
  | Player_timed_grade_eq tmd string
  | Player_is_resting
  | Commanded_monster_in_los

datatype func =
    Cave_monster_count
  | Cave_monster_max
  | Player_apply_damage_reduction int
  | Dungeon_get_next_level int int
  | Adj_con_fix

datatype dice = One_in int | Randint0 int | Damroll int int

record 'x collab =
  run :: "call \<Rightarrow> 'x world \<Rightarrow> 'x world"
  test :: "query \<Rightarrow> 'x world \<Rightarrow> bool"
  calc :: "func \<Rightarrow> 'x world \<Rightarrow> int"
  roll :: "dice \<Rightarrow> 'x world \<Rightarrow> int \<times> 'x world"

text \<open>A procedure call, and a draw (a non-zero draw of \<^verbatim>\<open>one_in_\<close> is true).\<close>

definition ext :: "'x collab \<Rightarrow> call \<Rightarrow> 'x game \<Rightarrow> 'x game" where
  "ext X c g = g\<lparr>world := run X c (world g)\<rparr>"

definition drawn :: "'x collab \<Rightarrow> dice \<Rightarrow> 'x game \<Rightarrow> int" where
  "drawn X d g = fst (roll X d (world g))"

definition after_draw :: "'x collab \<Rightarrow> dice \<Rightarrow> 'x game \<Rightarrow> 'x game" where
  "after_draw X d g = g\<lparr>world := snd (roll X d (world g))\<rparr>"

section \<open>Energy per turn, day and night\<close>

text \<open>\<^verbatim>\<open>turn_energy\<close>: a speed outside the table is a read out of bounds.\<close>

definition turn_energy :: "angband_constants \<Rightarrow> int \<Rightarrow> fault + int" where
  "turn_energy k s =
     (if 0 \<le> s \<and> s < 200
      then Inr ((uint (extract_energy ! nat s) * move_energy k) sdiv 100)
      else Inl Index_out_of_bounds)"

definition is_daytime :: "angband_constants \<Rightarrow> int \<Rightarrow> fault + bool" where
  "is_daytime k t =
     (case c_mod t (10 * day_length k) of
        Inl e \<Rightarrow> Inl e
      | Inr r \<Rightarrow> Inr (r < (10 * day_length k) sdiv 2))"

definition play_ambient_sound :: "'x collab \<Rightarrow> angband_constants \<Rightarrow> 'x game \<Rightarrow> 'x game flow" where
  "play_ambient_sound X k g =
     (if depth (world g) = 0 then
        (case is_daytime k (turn g) of
           Inl e \<Rightarrow> Fault e
         | Inr day \<Rightarrow> Next (ext X (Sound (if day then MSG_AMBIENT_DAY else MSG_AMBIENT_NITE)) g))
      else if depth (world g) \<le> 20 then Next (ext X (Sound MSG_AMBIENT_DNG1) g)
      else if depth (world g) \<le> 40 then Next (ext X (Sound MSG_AMBIENT_DNG2) g)
      else if depth (world g) \<le> 60 then Next (ext X (Sound MSG_AMBIENT_DNG3) g)
      else if depth (world g) \<le> 80 then Next (ext X (Sound MSG_AMBIENT_DNG4) g)
      else Next (ext X (Sound MSG_AMBIENT_DNG5) g))"

section \<open>The world tick\<close>

text \<open>
  \<^verbatim>\<open>process_world\<close>, statement by statement. Each definition below is one block of
  the function, in the order of the source; \<open>Return\<close> is the statement
  \<^verbatim>\<open>return\<close> after \<^verbatim>\<open>player->is_dead\<close> was found set.
\<close>

definition pw_compact :: "'x collab \<Rightarrow> angband_constants \<Rightarrow> 'x game \<Rightarrow> 'x game flow" where
  "pw_compact X k g =
     (let g1 = (if calc X Cave_monster_count (world g) + 32 > level_monster_max k
                then ext X (Compact_monsters 64) g else g);
          g2 = (if calc X Cave_monster_count (world g1) + 32 < calc X Cave_monster_max (world g1)
                then ext X (Compact_monsters 0) g1 else g1)
      in Next g2)"

definition pw_ambient :: "'x collab \<Rightarrow> angband_constants \<Rightarrow> 'x game \<Rightarrow> 'x game flow" where
  "pw_ambient X k g =
     (case c_mod (turn g) ((10 * day_length k) sdiv 4) of
        Inl e \<Rightarrow> Fault e
      | Inr r \<Rightarrow> if r = 0 then play_ambient_sound X k g else Next g)"

text \<open>The block ``Handle stores and sunshine''.\<close>

definition pw_daylight :: "'x collab \<Rightarrow> angband_constants \<Rightarrow> 'x game \<Rightarrow> 'x game flow" where
  "pw_daylight X k g =
     (if depth (world g) = 0 then
        (case c_mod (turn g) ((10 * day_length k) sdiv 2) of
           Inl e \<Rightarrow> Fault e
         | Inr r \<Rightarrow>
             if r = 0 then
               (case c_mod (turn g) (10 * day_length k) of
                  Inl e \<Rightarrow> Fault e
                | Inr r' \<Rightarrow>
                    (let dawn = (r' = 0);
                         g1 = ext X (Msg (if dawn then ''The sun has risen.''
                                          else ''The sun has fallen.'')) g
                     in Next (ext X (Cave_illuminate dawn) g1)))
             else Next g)
      else
        (case c_mod (turn g) (10 * store_turns k) of
           Inl e \<Rightarrow> Fault e
         | Inr r \<Rightarrow> if r = 0 then Next (g\<lparr>daycount := daycount g + 1\<rparr>) else Next g))"

definition pw_unlight :: "'x collab \<Rightarrow> 'x game \<Rightarrow> 'x game flow" where
  "pw_unlight X g =
     (if test X (Player_has PF_UNLIGHT) (world g)
      then Next (g\<lparr>world := (world g)\<lparr>update := update (world g) \<union> {PU_BONUS}\<rparr>\<rparr>)
      else Next g)"

definition pw_generation :: "'x collab \<Rightarrow> angband_constants \<Rightarrow> 'x game \<Rightarrow> 'x game flow" where
  "pw_generation X k g =
     (let d = One_in (alloc_monster_chance k); g1 = after_draw X d g
      in if drawn X d g \<noteq> 0
         then Next (ext X (Pick_and_place_distant_monster (grid (world g1)) (max_sight k + 5) True
                             (depth (world g1))) g1)
         else Next g1)"

text \<open>Damage over time: poison, cuts, bloodlust.\<close>

definition pw_poison :: "'x collab \<Rightarrow> 'x game \<Rightarrow> 'x game flow" where
  "pw_poison X g =
     (if timed (world g) TMD_POISONED \<noteq> 0 then
        (let g1 = ext X (Take_hit (calc X (Player_apply_damage_reduction 1) (world g)) ''poison'') g
         in if is_dead (world g1) then Return g1 else Next g1)
      else Next g)"

definition pw_cut :: "'x collab \<Rightarrow> 'x game \<Rightarrow> 'x game flow" where
  "pw_cut X g =
     (if timed (world g) TMD_CUT \<noteq> 0 then
        (let i = (if test X (Player_has PF_ROCK) (world g) then 0
                  else if test X (Player_timed_grade_eq TMD_CUT ''Mortal Wound'') (world g)
                          \<or> test X (Player_timed_grade_eq TMD_CUT ''Deep Gash'') (world g) then 3
                  else if test X (Player_timed_grade_eq TMD_CUT ''Severe Cut'') (world g) then 2
                  else 1);
             g1 = ext X (Take_hit (calc X (Player_apply_damage_reduction i) (world g))
                           ''a fatal wound'') g
         in if is_dead (world g1) then Return g1 else Next g1)
      else Next g)"

definition pw_bloodlust :: "'x collab \<Rightarrow> 'x game \<Rightarrow> 'x game flow" where
  "pw_bloodlust X g =
     (if timed (world g) TMD_BLOODLUST \<noteq> 0 then
        (let g1 = ext X (Player_over_exert {PY_EXERT_HP, PY_EXERT_CUT, PY_EXERT_SLOW}
                           (max 0 (10 - timed (world g) TMD_BLOODLUST))
                           (chp (world g) sdiv 10)) g
         in if is_dead (world g1) then Return g1 else Next g1)
      else Next g)"

definition pw_heal :: "'x collab \<Rightarrow> 'x game \<Rightarrow> 'x game flow" where
  "pw_heal X g =
     (if timed (world g) TMD_HEAL \<noteq> 0
      then Next (ext X (Effect_simple EF_HEAL_HP ''30'' 0 0 0 0 0) g)
      else Next g)"

text \<open>One of the three draws of the Black Breath, with the calls it triggers.\<close>

definition one_in_2 :: "'x collab \<Rightarrow> ('x game \<Rightarrow> 'x game) \<Rightarrow> 'x game \<Rightarrow> 'x game" where
  "one_in_2 X f g =
     (let g1 = after_draw X (One_in 2) g
      in if drawn X (One_in 2) g \<noteq> 0 then f g1 else g1)"

definition pw_blackbreath :: "'x collab \<Rightarrow> angband_constants \<Rightarrow> 'x game \<Rightarrow> 'x game flow" where
  "pw_blackbreath X k g =
     (if timed (world g) TMD_BLACKBREATH \<noteq> 0 then
        (let g1 = one_in_2 X (\<lambda>h. ext X (Player_stat_dec STAT_CON False)
                                  (ext X (Msg ''The Black Breath sickens you.'') h)) g;
             g2 = one_in_2 X (\<lambda>h. ext X (Player_stat_dec STAT_STR False)
                                  (ext X (Msg ''The Black Breath saps your strength.'') h)) g1;
             g3 = one_in_2 X (\<lambda>h.
                    (let drain = 100 + (exp (world h) sdiv 100) * life_drain_percent k
                     in ext X (Player_exp_lose drain False)
                          (ext X (Msg ''The Black Breath dims your life force.'') h))) g2
         in Next g3)
      else Next g)"

text \<open>
  The amount that normal digestion takes from the food clock: the local \<^verbatim>\<open>i\<close> when
  \<^verbatim>\<open>player_dec_timed\<close> is called.
\<close>

definition digestion :: "'x collab \<Rightarrow> angband_constants \<Rightarrow> 'x world \<Rightarrow> fault + int" where
  "digestion X k w =
     (case turn_energy k (speed w) of
        Inl e \<Rightarrow> Inl e
      | Inr i0 \<Rightarrow>
          (case c_div (i0 * 100) (food_value k) of
             Inl e \<Rightarrow> Inl e
           | Inr i1 \<Rightarrow>
               (let i2 = (if test X (Player_of_has OF_REGEN) w then i1 * 2 else i1);
                    i3 = (if test X (Player_of_has OF_SLOW_DIGEST) w then i2 sdiv 2 else i2)
                in Inr (if i3 < 1 then 1 else i3))))"

definition digest_normally :: "'x collab \<Rightarrow> angband_constants \<Rightarrow> 'x game \<Rightarrow> 'x game flow" where
  "digest_normally X k g =
     (if turn g smod 100 = 0 then
        (case digestion X k (world g) of
           Inl e \<Rightarrow> Fault e
         | Inr i \<Rightarrow> Next (ext X (Player_dec_timed TMD_FOOD i False True) g))
      else Next g)"

definition fast_metabolism :: "'x collab \<Rightarrow> angband_constants \<Rightarrow> 'x game \<Rightarrow> 'x game flow" where
  "fast_metabolism X k g =
     (if timed (world g) TMD_HEAL \<noteq> 0 then
        (let g1 = ext X (Player_dec_timed TMD_FOOD (8 * food_value k) False True) g
         in if timed (world g1) TMD_FOOD < PY_FOOD_HUNGRY k
            then Next (ext X (Player_set_timed TMD_HEAL 0 True True) g1)
            else Next g1)
      else Next g)"

definition pw_digest :: "'x collab \<Rightarrow> angband_constants \<Rightarrow> 'x game \<Rightarrow> 'x game flow" where
  "pw_digest X k g =
     (if \<not> test X (Player_timed_grade_eq TMD_FOOD ''Full'') (world g) then
        steps [digest_normally X k, fast_metabolism X k] g
      else
        (case c_div 5000 (food_value k) of
           Inl e \<Rightarrow> Fault e
         | Inr i \<Rightarrow>
             (let g1 = ext X (Player_dec_timed TMD_FOOD i False True) g
              in Next (g1\<lparr>world := (world g1)\<lparr>update := update (world g1) \<union> {PU_BONUS}\<rparr>\<rparr>))))"

text \<open>The block ``Faint or starving''.\<close>

definition pw_starve :: "'x collab \<Rightarrow> angband_constants \<Rightarrow> 'x game \<Rightarrow> 'x game flow" where
  "pw_starve X k g =
     (if test X (Player_timed_grade_eq TMD_FOOD ''Faint'') (world g) then
        (if timed (world g) TMD_PARALYZED = 0 then
           (let g1 = after_draw X (One_in 10) g
            in if drawn X (One_in 10) g \<noteq> 0 then
                 (let g2 = ext X Disturb (ext X (Msg ''You faint from the lack of food.'') g1);
                      g3 = after_draw X (Randint0 5) g2
                  in Next (ext X (Player_inc_timed TMD_PARALYZED (1 + drawn X (Randint0 5) g2)
                                    True True False) g3))
               else Next g1)
         else Next g)
      else if test X (Player_timed_grade_eq TMD_FOOD ''Starving'') (world g) then
        (let i = (PY_FOOD_STARVE k - timed (world g) TMD_FOOD) sdiv 10;
             g1 = ext X (Take_hit (calc X (Player_apply_damage_reduction i) (world g))
                           ''starvation'') g
         in if is_dead (world g1) then Return g1 else Next g1)
      else Next g)"

definition pw_regen :: "'x collab \<Rightarrow> 'x game \<Rightarrow> 'x game flow" where
  "pw_regen X g =
     (let g1 = (if chp (world g) < mhp (world g) then ext X Player_regen_hp g else g)
      in Next (ext X Player_regen_mana g1))"

text \<open>
  \<^verbatim>\<open>decrease_timeouts\<close>: one pass of its first loop, for the index \<open>i\<close>, with the local
  \<^verbatim>\<open>adjust\<close> (the entry of \<^verbatim>\<open>adj_con_fix\<close> for the player's constitution, plus 1), and
  the function.
\<close>

definition decrease_timeout :: "'x collab \<Rightarrow> int \<Rightarrow> tmd \<Rightarrow> 'x game \<Rightarrow> 'x game" where
  "decrease_timeout X adjust i g =
     (if timed (world g) i = 0 then g
      else
        (let decr =
           (case i of
              TMD_FOOD \<Rightarrow> 0
            | TMD_CUT \<Rightarrow>
                (if test X (Player_has PF_ROCK) (world g) then 0
                 else if test X (Player_timed_grade_eq TMD_CUT ''Mortal Wound'') (world g) then 0
                 else adjust)
            | TMD_POISONED \<Rightarrow> adjust
            | TMD_STUN \<Rightarrow> adjust
            | _ \<Rightarrow> 1);
             g1 =
           (if i = TMD_COMMAND then
              (if \<not> test X Commanded_monster_in_los (world g)
               then ext X (Player_clear_timed TMD_COMMAND True True) (ext X Mon_clear_timed_command g)
               else ext X (Mon_dec_timed_command decr) g)
            else g)
         in ext X (Player_dec_timed i decr False True) g1))"

definition decrease_timeouts :: "'x collab \<Rightarrow> angband_constants \<Rightarrow> 'x game \<Rightarrow> 'x game" where
  "decrease_timeouts X k g =
     (let adjust = calc X Adj_con_fix (world g) + 1
      in ext X Curse_timeouts (fold (decrease_timeout X adjust) (timed_effects k) g))"

definition pw_timeouts :: "'x collab \<Rightarrow> angband_constants \<Rightarrow> 'x game \<Rightarrow> 'x game flow" where
  "pw_timeouts X k g = Next (ext X Player_update_light (decrease_timeouts X k g))"

text \<open>The block ``Update noise and scent (not if resting)''.\<close>

definition pw_noise_scent :: "'x collab \<Rightarrow> 'x game \<Rightarrow> 'x game flow" where
  "pw_noise_scent X g =
     (let w = world g in
      if \<not> test X Player_is_resting w then
        (case make_noise (cave w) (grid w) (timed w TMD_COVERTRACKS) of
           None \<Rightarrow> Fault Nontermination
         | Some c \<Rightarrow>
             Next (g\<lparr>world := w\<lparr>cave := update_scent c (grid w) (timed w TMD_COVERTRACKS)\<rparr>\<rparr>))
      else Next g)"

definition pw_inventory :: "'x collab \<Rightarrow> angband_constants \<Rightarrow> 'x game \<Rightarrow> 'x game flow" where
  "pw_inventory X k g =
     (let g3 =
        (if test X (Player_of_has OF_DRAIN_EXP) (world g) then
           (let g2 =
              (if exp (world g) > 0 then
                 (let g1 = after_draw X (One_in 10) g
                  in if drawn X (One_in 10) g \<noteq> 0 then
                       (let d = drawn X (Damroll 10 6) g1
                                + (exp (world g1) sdiv 100) * life_drain_percent k
                        in ext X (Player_exp_lose (d sdiv 10) False) (after_draw X (Damroll 10 6) g1))
                     else g1)
               else g)
            in ext X (Equip_learn_flag OF_DRAIN_EXP) g2)
         else g);
          g4 = ext X Recharge_objects g3;
          g5 = (if turn g4 smod 100 = 0 then ext X Equip_learn_after_time g4 else g4)
      in Next (ext X Trap_timeouts g5))"

text \<open>The block ``Delayed Word-of-Recall''.\<close>

definition pw_recall :: "'x collab \<Rightarrow> 'x game \<Rightarrow> 'x game flow" where
  "pw_recall X g =
     (let w = world g in
      if word_recall w \<noteq> 0 \<and> \<not> arena_level w then
        (let g1 = g\<lparr>world := w\<lparr>word_recall := word_recall w - 1\<rparr>\<rparr>
         in if word_recall (world g1) = 0 then
              (let g2 = ext X Cmdq_flush (ext X Disturb g1)
               in if depth (world g2) \<noteq> 0 then
                    Next (ext X (Dungeon_change_level 0)
                            (ext X (Msgt MSG_TPLEVEL ''You feel yourself yanked upwards!'') g2))
                  else
                    (let g3 = ext X Player_set_recall_depth
                                (ext X (Msgt MSG_TPLEVEL ''You feel yourself yanked downwards!'') g2)
                     in Next (ext X (Dungeon_change_level (recall_depth (world g3))) g3)))
            else Next g1)
      else Next g)"

text \<open>The block ``Delayed Deep Descent''.\<close>

definition pw_descent :: "'x collab \<Rightarrow> angband_constants \<Rightarrow> 'x game \<Rightarrow> 'x game flow" where
  "pw_descent X k g =
     (let w = world g in
      if deep_descent w \<noteq> 0 then
        (let g1 = g\<lparr>world := w\<lparr>deep_descent := deep_descent w - 1\<rparr>\<rparr>
         in if deep_descent (world g1) = 0 then
              (case c_div 4 (stair_skip k) of
                 Inl e \<Rightarrow> Fault e
               | Inr q \<Rightarrow>
                   (let target_increment = q + 1;
                        target_depth = calc X (Dungeon_get_next_level (max_depth (world g1))
                                                 target_increment) (world g1);
                        g2 = ext X Disturb g1
                    in if target_depth > depth (world g2) then
                         Next (ext X (Dungeon_change_level target_depth)
                                 (ext X (Msgt MSG_TPLEVEL ''The floor opens beneath you!'') g2))
                       else
                         Next (ext X (Effect_simple EF_DESTRUCTION ''0'' 0 5 0 0 0)
                                 (ext X (Msgt MSG_TPLEVEL ''You are thrown back in an explosion!'')
                                    g2))))
            else Next g1)
      else Next g)"

definition process_world :: "'x collab \<Rightarrow> angband_constants \<Rightarrow> 'x game \<Rightarrow> 'x game flow" where
  "process_world X k =
     steps [pw_compact X k, pw_ambient X k, pw_daylight X k, pw_unlight X, pw_generation X k,
            pw_poison X, pw_cut X, pw_bloodlust X, pw_heal X, pw_blackbreath X k,
            pw_digest X k, pw_starve X k,
            pw_regen X, pw_timeouts X k, pw_noise_scent X, pw_inventory X k,
            pw_recall X, pw_descent X k]"

section \<open>Arriving on and leaving a level\<close>

definition refresh_player :: "'x collab \<Rightarrow> 'x game \<Rightarrow> 'x game" where
  "refresh_player X g = ext X Redraw_stuff (ext X Update_stuff (ext X Notice_stuff g))"

text \<open>\<^verbatim>\<open>on_new_level\<close> up to its first test of \<^verbatim>\<open>arena_level\<close> ...\<close>

definition onl_announce :: "'x collab \<Rightarrow> angband_constants \<Rightarrow> 'x game \<Rightarrow> 'x game flow" where
  "onl_announce X k g =
     (if \<not> arena_level (world g) then
        (case play_ambient_sound X k g of
           Next g1 \<Rightarrow> Next (ext X Health_track (ext X Target_set_monster g1))
         | Return g1 \<Rightarrow> Return g1
         | Fault e \<Rightarrow> Fault e)
      else Next g)"

text \<open>... from there to the statement \<^verbatim>\<open>return\<close> for arena levels ...\<close>

definition onl_track :: "'x collab \<Rightarrow> 'x game \<Rightarrow> 'x game flow" where
  "onl_track X g =
     (let g1 = ext X Disturb g;
          w1 = world g1;
          w2 = (if max_lev w1 < lev w1 then w1\<lparr>max_lev := lev w1\<rparr> else w1);
          w3 = (if max_depth w2 < depth w2
                then w2\<lparr>recall_depth := depth w2, max_depth := depth w2\<rparr> else w2);
          g3 = ext X (Event_signal EVENT_NEW_LEVEL_DISPLAY)
                 (ext X (Event_signal EVENT_MESSAGE_FLUSH) (g1\<lparr>world := w3\<rparr>));
          w4 = world g3;
          w5 = w4\<lparr>update := update w4 \<union> {PU_BONUS, PU_HP, PU_SPELLS, PU_INVEN},
                  notice := notice w4 \<union> {PN_COMBINE}\<rparr>;
          g6 = ext X (Event_signal EVENT_REFRESH) (refresh_player X (g3\<lparr>world := w5\<rparr>))
      in if arena_level (world g6) then Return g6 else Next g6)"

text \<open>... and the rest, which ends with the player's minimum energy.\<close>

definition onl_settle :: "'x collab \<Rightarrow> angband_constants \<Rightarrow> 'x game \<Rightarrow> 'x game flow" where
  "onl_settle X k g =
     (let g1 = (if depth (world g) \<noteq> 0 then ext X (Display_feeling False) g else g);
          g2 = ext X Search g1;
          w2 = world g2
      in if energy w2 < move_energy k
         then Next (g2\<lparr>world := w2\<lparr>energy := move_energy k\<rparr>\<rparr>)
         else Next g2)"

definition on_new_level :: "'x collab \<Rightarrow> angband_constants \<Rightarrow> 'x game \<Rightarrow> 'x game flow" where
  "on_new_level X k = steps [onl_announce X k, onl_track X, onl_settle X k]"

definition on_leave_level :: "'x collab \<Rightarrow> 'x game \<Rightarrow> 'x game" where
  "on_leave_level X g =
     ext X (Event_signal EVENT_MESSAGE_FLUSH)
       (refresh_player X
          (ext X Cmd_disable_repeat_floor_item (ext X (Player_clear_timed TMD_COMMAND False False) g)))"

section \<open>The main game loop\<close>

text \<open>The statements \<^verbatim>\<open>notice_stuff; handle_stuff; event_signal(EVENT_REFRESH)\<close>.\<close>

definition refresh :: "'x collab \<Rightarrow> 'x game \<Rightarrow> 'x game" where
  "refresh X g = ext X (Event_signal EVENT_REFRESH) (ext X Handle_stuff (ext X Notice_stuff g))"

text \<open>
  The loop \<^verbatim>\<open>while (player->upkeep->playing)\<close> around \<^verbatim>\<open>process_player\<close>, whose body
  leaves the loop or the function in its first pass.
\<close>

definition player_turn :: "'x collab \<Rightarrow> 'x game \<Rightarrow> 'x game flow" where
  "player_turn X g =
     (if playing (world g) then
        (let g1 = ext X Process_player g
         in if energy_use (world g1) \<noteq> 0 then Next g1 else Return g1)
      else Next g)"

text \<open>
  The loop \<^verbatim>\<open>while (player->energy >= z_info->move_energy)\<close>. Nothing in the source
  bounds the number of its passes; \<open>None\<close> is a loop that does not end.
\<close>

partial_function (option) player_turns :: "'x collab \<Rightarrow> angband_constants \<Rightarrow> 'x game
    \<Rightarrow> 'x game flow option" where
  "player_turns X k g =
     (if move_energy k \<le> energy (world g) then
        (let g1 = ext X (Process_monsters (energy (world g) + 1)) (ext X (Event_signal EVENT_ANIMATE) g)
         in if is_dead (world g1) \<or> \<not> playing (world g1) \<or> generate_level (world g1)
            then Some (Next g1)
            else (case player_turn X g1 of
                    Next g2 \<Rightarrow> player_turns X k g2
                  | Return g2 \<Rightarrow> Some (Return g2)
                  | Fault e \<Rightarrow> Some (Fault e)))
      else Some (Next g))"

text \<open>\<^verbatim>\<open>turn++\<close> on a signed 32-bit integer.\<close>

definition count_turn :: "'x game \<Rightarrow> 'x game flow" where
  "count_turn g = (if turn g < 2147483647 then Next (g\<lparr>turn := turn g + 1\<rparr>)
                   else Fault Signed_overflow)"

definition give_energy :: "angband_constants \<Rightarrow> 'x game \<Rightarrow> 'x game flow" where
  "give_energy k g =
     (case turn_energy k (speed (world g)) of
        Inl e \<Rightarrow> Fault e
      | Inr e \<Rightarrow> Next (g\<lparr>world := (world g)\<lparr>energy := energy (world g) + e\<rparr>\<rparr>))"

text \<open>
  The three parts of the branch \<^verbatim>\<open>else if (!player->upkeep->generate_level)\<close> of the
  main loop: the monsters, the world every ten turns, the energy and the turn counter.
\<close>

definition rest_of_monsters :: "'x collab \<Rightarrow> 'x game \<Rightarrow> 'x game flow" where
  "rest_of_monsters X g =
     (let g1 = refresh X (ext X Reset_monsters (ext X (Process_monsters 0) g))
      in if is_dead (world g1) \<or> \<not> playing (world g1) then Return g1 else Next g1)"

definition every_ten_turns :: "'x collab \<Rightarrow> angband_constants \<Rightarrow> 'x game \<Rightarrow> 'x game flow" where
  "every_ten_turns X k g =
     (if turn g smod 10 = 0 \<and> \<not> generate_level (world g) then
        (case process_world X k g of
           Fault e \<Rightarrow> Fault e
         | Return g1 \<Rightarrow>
             (let g2 = refresh X g1
              in if is_dead (world g2) \<or> \<not> playing (world g2) then Return g2 else Next g2)
         | Next g1 \<Rightarrow>
             (let g2 = refresh X g1
              in if is_dead (world g2) \<or> \<not> playing (world g2) then Return g2 else Next g2))
      else Next g)"

definition world_round :: "'x collab \<Rightarrow> angband_constants \<Rightarrow> 'x game \<Rightarrow> 'x game flow" where
  "world_round X k = steps [rest_of_monsters X, every_ten_turns X k, give_energy k, count_turn]"

text \<open>The block ``Make a new level if requested'', second half and whole.\<close>

definition new_level_done :: "'x collab \<Rightarrow> bool \<Rightarrow> 'x game \<Rightarrow> 'x game flow" where
  "new_level_done X arena g =
     (let g1 = g\<lparr>world := (world g)\<lparr>generate_level := False\<rparr>\<rparr>
      in if arena then
           (let g2 = g1\<lparr>world := (world g1)\<lparr>arena_level := False\<rparr>\<rparr>
            in if health_who (world g2) then Next (ext X Kill_arena_monster g2) else Next g2)
         else Next g1)"


definition new_level :: "'x collab \<Rightarrow> angband_constants \<Rightarrow> 'x game \<Rightarrow> 'x game flow" where
  "new_level X k g =
     (if generate_level (world g) then
        (let g1 = (if character_dungeon (world g) then on_leave_level X g else g);
             arena = (character_dungeon (world g) \<and> name (cave (world g1)) = ''arena'')
         in case on_new_level X k (ext X Prepare_next_level g1) of
              Fault e \<Rightarrow> Fault e
            | Return g2 \<Rightarrow> new_level_done X arena g2
            | Next g2 \<Rightarrow> new_level_done X arena g2)
      else Next g)"

text \<open>One pass of the loop \<^verbatim>\<open>while (true)\<close>.\<close>

definition loop_pass :: "'x collab \<Rightarrow> angband_constants \<Rightarrow> 'x game \<Rightarrow> 'x game flow option" where
  "loop_pass X k g =
     (let g1 = refresh X g
      in if is_dead (world g1) \<or> \<not> playing (world g1) then Some (Return g1)
         else (case (if \<not> generate_level (world g1) then world_round X k g1 else Next g1) of
                 Fault e \<Rightarrow> Some (Fault e)
               | Return g2 \<Rightarrow> Some (Return g2)
               | Next g2 \<Rightarrow>
                   (case new_level X k g2 of
                      Fault e \<Rightarrow> Some (Fault e)
                    | Return g3 \<Rightarrow> Some (Return g3)
                    | Next g3 \<Rightarrow> player_turns X k g3)))"

partial_function (option) main_loop :: "'x collab \<Rightarrow> angband_constants \<Rightarrow> 'x game
    \<Rightarrow> 'x game flow option" where
  "main_loop X k g =
     (case loop_pass X k g of
        None \<Rightarrow> None
      | Some (Next g1) \<Rightarrow> main_loop X k g1
      | Some (Return g1) \<Rightarrow> Some (Return g1)
      | Some (Fault e) \<Rightarrow> Some (Fault e))"

definition run_game_loop :: "'x collab \<Rightarrow> angband_constants \<Rightarrow> 'x game \<Rightarrow> 'x game flow option" where
  "run_game_loop X k g =
     (case player_turn X (ext X Process_player_cleanup g) of
        Fault e \<Rightarrow> Some (Fault e)
      | Return g1 \<Rightarrow> Some (Return g1)
      | Next g1 \<Rightarrow>
          (case player_turns X k g1 of
             None \<Rightarrow> None
           | Some (Next g2) \<Rightarrow> main_loop X k g2
           | Some (Return g2) \<Rightarrow> Some (Return g2)
           | Some (Fault e) \<Rightarrow> Some (Fault e)))"

section \<open>Sample data for concrete runs\<close>

text \<open>
  A simple stand-in for the collaborators, for running the model on concrete states:
  a hit subtracts its damage from the hit points and kills below zero, damage reduction
  leaves the damage as it is, a timed effect is decreased down to zero or set, the food
  clock is ``Starving'' below 100 and ``Full'' from 15000 on, every other test fails,
  every draw is 0 and every other procedure does nothing.
\<close>

definition plain_run :: "call \<Rightarrow> unit world \<Rightarrow> unit world" where
  "plain_run c w =
     (case c of
        Take_hit d s \<Rightarrow>
          (let w1 = w\<lparr>chp := chp w - d\<rparr> in if chp w1 < 0 then w1\<lparr>is_dead := True\<rparr> else w1)
      | Player_dec_timed t v a b \<Rightarrow> w\<lparr>timed := (timed w)(t := max 0 (timed w t - v))\<rparr>
      | Player_set_timed t v a b \<Rightarrow> w\<lparr>timed := (timed w)(t := v)\<rparr>
      | _ \<Rightarrow> w)"

definition plain_test :: "query \<Rightarrow> unit world \<Rightarrow> bool" where
  "plain_test q w =
     (case q of
        Player_timed_grade_eq t s \<Rightarrow>
          t = TMD_FOOD \<and> (s = ''Starving'' \<and> timed w TMD_FOOD < 100
                          \<or> s = ''Full'' \<and> 15000 \<le> timed w TMD_FOOD)
      | _ \<Rightarrow> False)"

definition plain_calc :: "func \<Rightarrow> unit world \<Rightarrow> int" where
  "plain_calc f w = (case f of Player_apply_damage_reduction d \<Rightarrow> d | _ \<Rightarrow> 0)"

definition plain :: "unit collab" where
  "plain = \<lparr>run = plain_run, test = plain_test, calc = plain_calc, roll = (\<lambda>d w. (0, w))\<rparr>"

definition sample_constants :: angband_constants where
  "sample_constants =
     \<lparr>move_energy = 100, day_length = 10000, store_turns = 1000, food_value = 100,
      level_monster_max = 1024, alloc_monster_chance = 500, max_sight = 20,
      life_drain_percent = 10, stair_skip = 1, PY_FOOD_HUNGRY = 2000, PY_FOOD_STARVE = 100,
      timed_effects = [TMD_FOOD, TMD_CUT, TMD_POISONED, TMD_STUN, TMD_BLOODLUST, TMD_HEAL,
        TMD_BLACKBREATH, TMD_PARALYZED, TMD_COVERTRACKS, TMD_COMMAND]\<rparr>"

text \<open>A level of 5 by 5 cells: a ring of rock around a room of 3 by 3 cells.\<close>

definition sample_cave :: chunk where
  "sample_cave =
     \<lparr>name = ''sample'', height = 5, width = 5, noise = (\<lambda>g. 0), scent = (\<lambda>g. 0),
      square_isnoflow = (\<lambda>g. loc_x g \<le> 0 \<or> 4 \<le> loc_x g \<or> loc_y g \<le> 0 \<or> 4 \<le> loc_y g),
      square_isnoscent = (\<lambda>g. loc_x g \<le> 0 \<or> 4 \<le> loc_x g \<or> loc_y g \<le> 0 \<or> 4 \<le> loc_y g)\<rparr>"

text \<open>A healthy, fed player at normal speed in the middle of the sample level, at depth 1.\<close>

definition sample_world :: "unit world" where
  "sample_world =
     \<lparr>grid = Loc 2 2, depth = 1, max_depth = 1, recall_depth = 1, lev = 1, max_lev = 1,
      energy = 0, chp = 10, mhp = 10, exp = 0, is_dead = False, word_recall = 0,
      deep_descent = 0, timed = (\<lambda>t. if t = TMD_FOOD then 5000 else 0), speed = 110,
      playing = True, generate_level = False, arena_level = False, energy_use = 0,
      update = {}, notice = {}, health_who = False, cave = sample_cave,
      character_dungeon = True, elsewhere = ()\<rparr>"

definition sample_game :: "unit game" where
  "sample_game = \<lparr>turn = 10, daycount = 0, world = sample_world\<rparr>"

text \<open>The same game on an arena level.\<close>

definition arena_game :: "unit game" where
  "arena_game = sample_game\<lparr>world := sample_world\<lparr>arena_level := True\<rparr>\<rparr>"

section \<open>Notions for stating the properties\<close>

text \<open>The state in which a block ends, when it does not fault.\<close>

definition outcome :: "'a flow \<Rightarrow> 'a option" where
  "outcome r = (case r of Fault e \<Rightarrow> None | Return s \<Rightarrow> Some s | Next s \<Rightarrow> Some s)"

text \<open>
  A frame condition on the collaborators: none of the procedure calls in \<open>C\<close> changes
  the component \<open>f\<close> of the world.
\<close>

definition keeps :: "'x collab \<Rightarrow> call set \<Rightarrow> ('x world \<Rightarrow> 'a) \<Rightarrow> bool" where
  "keeps X C f = (\<forall>c\<in>C. \<forall>w. f (run X c w) = f w)"

text \<open>The calls that \<^verbatim>\<open>on_new_level\<close> makes.\<close>

definition arrival_calls :: "call set" where
  "arrival_calls =
     range Sound \<union> range Event_signal \<union> range Display_feeling
     \<union> {Target_set_monster, Health_track, Disturb, Notice_stuff, Update_stuff, Redraw_stuff,
         Search}"

text \<open>
  A block is calm when it leaves the turn counter and the day counter as they are.
\<close>

definition calm :: "('x game \<Rightarrow> 'x game flow) \<Rightarrow> bool" where
  "calm f = (\<forall>g g'. outcome (f g) = Some g' \<longrightarrow> turn g' = turn g \<and> daycount g' = daycount g)"

text \<open>The calls that \<^verbatim>\<open>process_world\<close> makes before it looks at the player's depth.\<close>

definition calendar_calls :: "call set" where
  "calendar_calls = range Compact_monsters \<union> range Sound"

text \<open>
  The digestion rate in the words of the spec: the round energy, scaled by the food
  value, doubled under regeneration, halved under slow digestion, and at least 1.
\<close>

definition spec_digestion :: "int \<Rightarrow> int \<Rightarrow> bool \<Rightarrow> bool \<Rightarrow> int" where
  "spec_digestion round_energy fv regeneration slow_digestion =
     (let scaled = (round_energy * 100) sdiv fv;
          doubled = (if regeneration then 2 * scaled else scaled);
          halved = (if slow_digestion then doubled sdiv 2 else doubled)
      in max 1 halved)"

definition food_clock :: "'x game \<Rightarrow> int" where
  "food_clock g = timed (world g) TMD_FOOD"

text \<open>The statement \<^verbatim>\<open>player->upkeep->update |= PU_BONUS\<close>.\<close>

definition bonus :: "'x game \<Rightarrow> 'x game" where
  "bonus g = g\<lparr>world := (world g)\<lparr>update := update (world g) \<union> {PU_BONUS}\<rparr>\<rparr>"

text \<open>The blocks of \<^verbatim>\<open>process_world\<close> that come before ``Damage (or healing) over Time''.\<close>

definition before_hazards :: "'x collab \<Rightarrow> angband_constants \<Rightarrow> ('x game \<Rightarrow> 'x game flow) list" where
  "before_hazards X k =
     [pw_compact X k, pw_ambient X k, pw_daylight X k, pw_unlight X, pw_generation X k]"

text \<open>
  The state right after the hit of each hazard of \<^verbatim>\<open>process_world\<close>: the call of
  \<^verbatim>\<open>take_hit\<close> for the poison, for the cuts (with the damage that the grade of the cut
  gives) and for the starvation, and the call of \<^verbatim>\<open>player_over_exert\<close> for the
  bloodlust.
\<close>

definition poison_hit :: "'x collab \<Rightarrow> 'x game \<Rightarrow> 'x game" where
  "poison_hit X g =
     ext X (Take_hit (calc X (Player_apply_damage_reduction 1) (world g)) ''poison'') g"

definition cut_damage :: "'x collab \<Rightarrow> 'x game \<Rightarrow> int" where
  "cut_damage X g =
     (if test X (Player_has PF_ROCK) (world g) then 0
      else if test X (Player_timed_grade_eq TMD_CUT ''Mortal Wound'') (world g)
              \<or> test X (Player_timed_grade_eq TMD_CUT ''Deep Gash'') (world g) then 3
      else if test X (Player_timed_grade_eq TMD_CUT ''Severe Cut'') (world g) then 2
      else 1)"

definition cut_hit :: "'x collab \<Rightarrow> 'x game \<Rightarrow> 'x game" where
  "cut_hit X g =
     ext X (Take_hit (calc X (Player_apply_damage_reduction (cut_damage X g)) (world g))
              ''a fatal wound'') g"

definition bloodlust_hit :: "'x collab \<Rightarrow> 'x game \<Rightarrow> 'x game" where
  "bloodlust_hit X g =
     ext X (Player_over_exert {PY_EXERT_HP, PY_EXERT_CUT, PY_EXERT_SLOW}
              (max 0 (10 - timed (world g) TMD_BLOODLUST)) (chp (world g) sdiv 10)) g"

definition starve_hit :: "'x collab \<Rightarrow> angband_constants \<Rightarrow> 'x game \<Rightarrow> 'x game" where
  "starve_hit X k g =
     ext X (Take_hit (calc X (Player_apply_damage_reduction
                                ((PY_FOOD_STARVE k - timed (world g) TMD_FOOD) sdiv 10)) (world g))
              ''starvation'') g"

text \<open>
  The blocks of \<^verbatim>\<open>process_world\<close> from ``Damage (or healing) over Time'' up to the
  block ``Digest'', which come before the block ``Faint or starving''.
\<close>

definition before_starving :: "'x collab \<Rightarrow> angband_constants \<Rightarrow> ('x game \<Rightarrow> 'x game flow) list" where
  "before_starving X k =
     [pw_poison X, pw_cut X, pw_bloodlust X, pw_heal X, pw_blackbreath X k, pw_digest X k]"

text \<open>A block was left by \<^verbatim>\<open>return\<close>.\<close>

definition left_early :: "'a flow \<Rightarrow> bool" where
  "left_early r = (case r of Return s \<Rightarrow> True | _ \<Rightarrow> False)"

text \<open>
  The state of the main loop after \<^verbatim>\<open>process_monsters(0)\<close>, \<^verbatim>\<open>reset_monsters()\<close>
  and the refresh that follows them.
\<close>

definition after_monsters :: "'x collab \<Rightarrow> 'x game \<Rightarrow> 'x game" where
  "after_monsters X g = refresh X (ext X Reset_monsters (ext X (Process_monsters 0) g))"

text \<open>
  The cells that the loops over the level visit (all but the outermost rows and
  columns), and the cells of the level that they leave out.
\<close>

definition interior :: "chunk \<Rightarrow> loc \<Rightarrow> bool" where
  "interior c g = (1 \<le> loc_x g \<and> loc_x g \<le> width c - 2 \<and> 1 \<le> loc_y g \<and> loc_y g \<le> height c - 2)"

definition boundary :: "chunk \<Rightarrow> loc \<Rightarrow> bool" where
  "boundary c g = (square_in_bounds c g \<and> \<not> interior c g)"

text \<open>
  The cell of the level under the kernel position \<open>k = (ky, kx)\<close> (the local
  \<^verbatim>\<open>scent\<close> of \<^verbatim>\<open>update_scent\<close>), its kernel value (the local \<^verbatim>\<open>new_scent\<close>), and the
  three conditions under which the source writes the cell.
\<close>

definition kernel_cell :: "loc \<Rightarrow> nat \<times> nat \<Rightarrow> loc" where
  "kernel_cell pgrid k = Loc (int (snd k) + loc_x pgrid - 2) (int (fst k) + loc_y pgrid - 2)"

definition strength :: "nat \<times> nat \<Rightarrow> int" where
  "strength k = scent_strength ! fst k ! snd k"

definition lays :: "chunk \<Rightarrow> loc \<Rightarrow> (loc \<Rightarrow> 16 word) \<Rightarrow> nat \<times> nat \<Rightarrow> bool" where
  "lays c pgrid gr k =
     (square_in_bounds c (kernel_cell pgrid k) \<and> \<not> square_isnoscent c (kernel_cell pgrid k)
      \<and> fold (scent_adjacent c gr (fst k) (snd k) (kernel_cell pgrid k) (strength k)) ddgrid_ddd False)"

text \<open>
  The test of the spec for writing a kernel cell: the cell is in bounds, its terrain
  allows scent, and it is the player's own cell or one of its 8 neighbours in bounds
  holds exactly one less than the value to be written.
\<close>

definition spec_scent_test :: "chunk \<Rightarrow> loc \<Rightarrow> (loc \<Rightarrow> 16 word) \<Rightarrow> nat \<times> nat \<Rightarrow> bool" where
  "spec_scent_test c pgrid gr k =
     (square_in_bounds c (kernel_cell pgrid k) \<and> \<not> square_isnoscent c (kernel_cell pgrid k)
      \<and> (kernel_cell pgrid k = pgrid
          \<or> (\<exists>d \<in> set ddgrid_ddd. square_in_bounds c (loc_sum (kernel_cell pgrid k) d)
                \<and> uint (gr (loc_sum (kernel_cell pgrid k) d)) = strength k - 1)))"

text \<open>
  A cell is connected to the player when a walk of steps to neighbours leads from the
  player's cell to it through cells in bounds whose terrain allows scent.
\<close>

inductive scent_path :: "chunk \<Rightarrow> loc \<Rightarrow> loc \<Rightarrow> bool" for c pgrid where
  start: "scent_path c pgrid pgrid"
| step: "scent_path c pgrid g \<Longrightarrow> d \<in> set ddgrid_ddd \<Longrightarrow> square_in_bounds c (loc_sum g d)
         \<Longrightarrow> \<not> square_isnoscent c (loc_sum g d) \<Longrightarrow> scent_path c pgrid (loc_sum g d)"

text \<open>
  A cell has a stale neighbour when one of its 8 neighbours is a boundary cell of the
  level that held scent 1 before the update: the first loop of \<^verbatim>\<open>update_scent\<close> does
  not visit the boundary, so that this scent is not aged.
\<close>

definition stale_neighbour :: "chunk \<Rightarrow> loc \<Rightarrow> bool" where
  "stale_neighbour c g =
     (\<exists>d \<in> set ddgrid_ddd. boundary c (loc_sum g d) \<and> scent c (loc_sum g d) = 1)"

text \<open>
  Every cell in bounds that holds scent 1 is connected to the player, or is a boundary
  cell that held scent 1 before the update.
\<close>

definition fresh_linked :: "chunk \<Rightarrow> loc \<Rightarrow> (loc \<Rightarrow> 16 word) \<Rightarrow> bool" where
  "fresh_linked c p gr =
     (\<forall>g. square_in_bounds c g \<longrightarrow> gr g = 1 \<longrightarrow> scent_path c p g \<or> (boundary c g \<and> scent c g = 1))"

text \<open>
  Walks on the grid. \<open>reach ok p n g\<close>: some walk of exactly \<open>n\<close> steps, each to one
  of the 8 neighbours, leads from \<open>p\<close> to \<open>g\<close>, and every cell it enters satisfies
  \<open>ok\<close> (read backwards: \<open>g\<close> is entered from a neighbour that is reached in one
  step less). \<open>lev ok p n g\<close>: the least number of steps of such a walk is \<open>n\<close>.
  \<open>near ok p n g\<close>: some such walk has at most \<open>n\<close> steps.
\<close>

fun reach :: "(loc \<Rightarrow> bool) \<Rightarrow> loc \<Rightarrow> nat \<Rightarrow> loc \<Rightarrow> bool" where
  "reach ok p 0 g = (g = p)"
| "reach ok p (Suc n) g = (ok g \<and> (\<exists>d \<in> set ddgrid_ddd. reach ok p n (loc_sum g d)))"

definition lev :: "(loc \<Rightarrow> bool) \<Rightarrow> loc \<Rightarrow> nat \<Rightarrow> loc \<Rightarrow> bool" where
  "lev ok p n g = (reach ok p n g \<and> (\<forall>m<n. \<not> reach ok p m g))"

definition near :: "(loc \<Rightarrow> bool) \<Rightarrow> loc \<Rightarrow> nat \<Rightarrow> loc \<Rightarrow> bool" where
  "near ok p n g = (\<exists>m\<le>n. reach ok p m g)"

text \<open>Terrain that transmits sound, on the level.\<close>

definition sound_passes :: "chunk \<Rightarrow> loc \<Rightarrow> bool" where
  "sound_passes c g = (square_in_bounds c g \<and> \<not> square_isnoflow c g)"

text \<open>
  The cells that the noise of a run of \<^verbatim>\<open>make_noise\<close> can enter: their terrain
  transmits sound and they are silent when the flood starts, which the cells that the
  reset loop visits always are, and a boundary cell only if it held no noise before
  the run.
\<close>

definition carries :: "chunk \<Rightarrow> loc \<Rightarrow> bool" where
  "carries c g = (sound_passes c g \<and> (interior c g \<or> noise c g = 0))"

text \<open>The four tests that a neighbour passes in \<^verbatim>\<open>make_noise\<close> before it is given noise.\<close>

definition can_hear :: "chunk \<Rightarrow> loc \<Rightarrow> (loc \<Rightarrow> 16 word) \<Rightarrow> loc \<Rightarrow> bool" where
  "can_hear c p gr g =
     (square_in_bounds c g \<and> \<not> square_isnoflow c g \<and> gr g = 0 \<and> g \<noteq> p)"

text \<open>
  The invariant of the loop of \<^verbatim>\<open>make_noise\<close>. The queue is \<open>A @ B\<close>: the cells of
  \<open>A\<close> are \<open>k\<close> steps from the player and wait for their neighbours to be visited,
  the cells of \<open>B\<close> are \<open>k + 1\<close> steps away and were found in this round. Every cell
  up to \<open>k\<close> steps away and every cell of \<open>B\<close> holds its number of steps times the
  increment, every other cell holds what it held at the start, and the neighbours
  \<open>k + 1\<close> steps away of a cell \<open>k\<close> steps away that has left the queue are in \<open>B\<close>.
\<close>

definition flooded :: "(loc \<Rightarrow> bool) \<Rightarrow> loc \<Rightarrow> nat \<Rightarrow> (loc \<Rightarrow> 16 word) \<Rightarrow> nat \<Rightarrow> loc list
    \<Rightarrow> loc list \<Rightarrow> (loc \<Rightarrow> 16 word) \<Rightarrow> bool" where
  "flooded ok p inc G0 k A B gr =
     (distinct (A @ B)
      \<and> (\<forall>a \<in> set A. lev ok p k a)
      \<and> (\<forall>b \<in> set B. lev ok p (Suc k) b \<and> unat (gr b) = inc * Suc k)
      \<and> (\<forall>g n. lev ok p n g \<longrightarrow> n \<le> k \<longrightarrow> unat (gr g) = inc * n)
      \<and> (\<forall>g. \<not> near ok p k g \<longrightarrow> g \<notin> set B \<longrightarrow> gr g = G0 g)
      \<and> (\<forall>h d. lev ok p k h \<longrightarrow> h \<notin> set A \<longrightarrow> d \<in> set ddgrid_ddd
             \<longrightarrow> lev ok p (Suc k) (loc_sum h d) \<longrightarrow> loc_sum h d \<in> set B))"

definition flood_inv :: "chunk \<Rightarrow> loc \<Rightarrow> nat \<Rightarrow> (loc \<Rightarrow> 16 word) \<Rightarrow> flood \<Rightarrow> bool" where
  "flood_inv c p inc G0 st =
     (\<exists>k A B. snd (snd st) = inc * Suc k \<and> fst (snd st) = A @ B
        \<and> flooded (can_hear c p G0) p inc G0 k A B (fst st))"

text \<open>
  What decreases in every pass of the loop, in lexicographic order: the number of cells
  in bounds without noise, the number of queued cells that hold at least the current
  noise, and the length of the queue.
\<close>

definition flood_measure :: "chunk \<Rightarrow> flood \<Rightarrow> nat \<times> nat \<times> nat" where
  "flood_measure c st =
     (card {g. square_in_bounds c g \<and> fst st g = 0},
      length (filter (\<lambda>g. snd (snd st) \<le> unat (fst st g)) (fst (snd st))),
      length (fst (snd st)))"

definition noise_at :: "loc \<Rightarrow> chunk \<Rightarrow> 16 word" where
  "noise_at g c = noise c g"

subsection \<open>Further sample states\<close>

text \<open>
  The sample game at turn 100000, a multiple of ten day lengths and of ten store
  periods, in the town and in the dungeon; at turn 100; gorged; and at turn 100 with no
  hit points left, poisoned or starving.
\<close>

definition town_game :: "unit game" where
  "town_game = \<lparr>turn = 100000, daycount = 0, world = sample_world\<lparr>depth := 0\<rparr>\<rparr>"

definition dungeon_game :: "unit game" where
  "dungeon_game = \<lparr>turn = 100000, daycount = 0, world = sample_world\<rparr>"

definition century_game :: "unit game" where
  "century_game = sample_game\<lparr>turn := 100\<rparr>"

definition gorged_game :: "unit game" where
  "gorged_game =
     sample_game\<lparr>world := sample_world\<lparr>timed := (\<lambda>t. if t = TMD_FOOD then 16000 else 0)\<rparr>\<rparr>"

definition poisoned_game :: "unit game" where
  "poisoned_game =
     century_game\<lparr>world := sample_world\<lparr>chp := 0,
        timed := (\<lambda>t. if t = TMD_FOOD then 5000 else if t = TMD_POISONED then 5 else 0)\<rparr>\<rparr>"

definition starving_game :: "unit game" where
  "starving_game =
     century_game\<lparr>world := sample_world\<lparr>chp := 0,
        timed := (\<lambda>t. if t = TMD_FOOD then 95 else 0)\<rparr>\<rparr>"

text \<open>
  The sample game at turn 100 with no hit points left and a cut; in bloodlust; and the
  sample game under timed healing.
\<close>

definition wounded_game :: "unit game" where
  "wounded_game =
     century_game\<lparr>world := sample_world\<lparr>chp := 0,
        timed := (\<lambda>t. if t = TMD_FOOD then 5000 else if t = TMD_CUT then 5 else 0)\<rparr>\<rparr>"

definition raging_game :: "unit game" where
  "raging_game =
     century_game\<lparr>world := sample_world\<lparr>
        timed := (\<lambda>t. if t = TMD_FOOD then 5000 else if t = TMD_BLOODLUST then 5 else 0)\<rparr>\<rparr>"

definition healing_game :: "unit game" where
  "healing_game =
     sample_game\<lparr>world := sample_world\<lparr>
        timed := (\<lambda>t. if t = TMD_FOOD then 5000 else if t = TMD_HEAL then 5 else 0)\<rparr>\<rparr>"

text \<open>A stand-in for the collaborators in which over-exertion is fatal.\<close>

definition frail :: "unit collab" where
  "frail = plain\<lparr>run := (\<lambda>c w. case c of Player_over_exert f n a \<Rightarrow> w\<lparr>is_dead := True\<rparr>
                                    | _ \<Rightarrow> plain_run c w)\<rparr>"

text \<open>
  The sample level with scent of age 3 in one corner of the room, and with scent of the
  greatest age that a cell can hold there.
\<close>

definition scented_cave :: chunk where
  "scented_cave = sample_cave\<lparr>scent := (\<lambda>g. if g = Loc 3 3 then 3 else 0)\<rparr>"

definition worn_cave :: chunk where
  "worn_cave = sample_cave\<lparr>scent := (\<lambda>g. if g = Loc 3 3 then 65535 else 0)\<rparr>"

text \<open>
  A level of 5 by 5 cells without any terrain that blocks sound or scent, and one in
  which the middle column blocks both.
\<close>

definition open_cave :: chunk where
  "open_cave =
     \<lparr>name = ''open'', height = 5, width = 5, noise = (\<lambda>g. 0), scent = (\<lambda>g. 0),
      square_isnoflow = (\<lambda>g. False), square_isnoscent = (\<lambda>g. False)\<rparr>"

definition walled_cave :: chunk where
  "walled_cave =
     \<lparr>name = ''walled'', height = 5, width = 5, noise = (\<lambda>g. 0), scent = (\<lambda>g. 0),
      square_isnoflow = (\<lambda>g. loc_x g = 2), square_isnoscent = (\<lambda>g. loc_x g = 2)\<rparr>"

section \<open>Properties of the energy table\<close>

lemma nondecreasing_nth:
  "nondecreasing xs \<Longrightarrow> Suc i < length xs \<Longrightarrow> xs ! i \<le> xs ! Suc i"
proof (induction xs arbitrary: i rule: nondecreasing.induct)
  case (3 x y zs)
  then show ?case by (cases i) simp_all
qed simp_all

lemma all_between_set: "all_between lo hi xs \<Longrightarrow> x \<in> set xs \<Longrightarrow> lo \<le> x \<and> x \<le> hi"
  by (induction xs) auto

lemma extract_energy_length: "length extract_energy = 200"
  by (simp add: extract_energy_def)

lemma extract_energy_nondecreasing: "nondecreasing extract_energy"
  by (simp add: extract_energy_def)

lemma extract_energy_between: "all_between 1 49 extract_energy"
  by (simp add: extract_energy_def)

lemma extract_energy_Min: "Min (set extract_energy) = 1"
proof (rule Min_eqI)
  show "finite (set extract_energy)" by simp
  show "1 \<le> y" if "y \<in> set extract_energy" for y
    using all_between_set [OF extract_energy_between that] by simp
  have "extract_energy ! 0 = 1" by (simp add: extract_energy_def)
  moreover have "extract_energy ! 0 \<in> set extract_energy"
    by (rule nth_mem) (simp add: extract_energy_length)
  ultimately show "1 \<in> set extract_energy" by simp
qed

lemma extract_energy_Max: "Max (set extract_energy) = 49"
proof (rule Max_eqI)
  show "finite (set extract_energy)" by simp
  show "y \<le> 49" if "y \<in> set extract_energy" for y
    using all_between_set [OF extract_energy_between that] by simp
  have "extract_energy ! 199 = 49" by (simp add: extract_energy_def)
  moreover have "extract_energy ! 199 \<in> set extract_energy"
    by (rule nth_mem) (simp add: extract_energy_length)
  ultimately show "49 \<in> set extract_energy" by simp
qed

text \<open>
  Claim C7. The speed-to-energy table has exactly 200 entries, each entry with index
  \<open>s\<close> from 0 to 198 is at most its successor, the least entry is 1 and the greatest
  entry is 49.
\<close>

theorem extract_energy_table:
  "length extract_energy = 200
   \<and> (\<forall>s. s \<le> 198 \<longrightarrow> extract_energy ! s \<le> extract_energy ! (s + 1))
   \<and> Min (set extract_energy) = 1
   \<and> Max (set extract_energy) = 49"
proof (intro conjI allI impI)
  fix s :: nat
  assume "s \<le> 198"
  then have "Suc s < length extract_energy" by (simp add: extract_energy_length)
  from nondecreasing_nth [OF extract_energy_nondecreasing this]
  show "extract_energy ! s \<le> extract_energy ! (s + 1)" by simp
qed (simp_all add: extract_energy_length extract_energy_Min extract_energy_Max)

theorem extract_energy_table_witness:
  "(109::nat) \<le> 198 \<and> extract_energy ! 109 \<le> extract_energy ! (109 + 1)
   \<and> extract_energy ! 109 = 9 \<and> extract_energy ! 110 = 10"
proof -
  have "(109::nat) \<le> 198 \<longrightarrow> extract_energy ! 109 \<le> extract_energy ! (109 + 1)"
    using extract_energy_table by blast
  moreover have "extract_energy ! 109 = 9" "extract_energy ! 110 = 10"
    by (simp_all add: extract_energy_def)
  ultimately show ?thesis by simp
qed

section \<open>Calls of collaborators\<close>

lemma ext_world: "world (ext X c g) = run X c (world g)"
  and ext_turn: "turn (ext X c g) = turn g"
  and ext_daycount: "daycount (ext X c g) = daycount g"
  by (simp_all add: ext_def)

lemma keeps_ext: "keeps X C f \<Longrightarrow> c \<in> C \<Longrightarrow> f (world (ext X c g)) = f (world g)"
  by (simp add: keeps_def ext_def)

lemma plain_simps:
  "run plain = plain_run" "test plain = plain_test" "calc plain = plain_calc"
  "roll plain = (\<lambda>d w. (0, w))"
  by (simp_all add: plain_def)

lemma keeps_plain_energy: "keeps plain C energy"
  by (simp add: keeps_def plain_def plain_run_def Let_def split: call.splits)

lemma keeps_plain_arena_level: "keeps plain C arena_level"
  by (simp add: keeps_def plain_def plain_run_def Let_def split: call.splits)

section \<open>Energy on arriving on a level\<close>

lemma play_ambient_sound_cases:
  "(\<exists>e. play_ambient_sound X k g = Fault e \<and> depth (world g) = 0 \<and> day_length k = 0)
   \<or> (\<exists>m. play_ambient_sound X k g = Next (ext X (Sound m) g))"
  by (auto simp: play_ambient_sound_def is_daytime_def c_mod_def split: sum.splits if_splits)

lemma play_ambient_sound_Next:
  "depth (world g) \<noteq> 0 \<or> day_length k \<noteq> 0
   \<Longrightarrow> \<exists>m. play_ambient_sound X k g = Next (ext X (Sound m) g)"
  using play_ambient_sound_cases [of X k g] by auto

lemma onl_announce_energy:
  assumes "keeps X arrival_calls energy" "keeps X arrival_calls arena_level"
    and "depth (world g) \<noteq> 0 \<or> day_length k \<noteq> 0 \<or> arena_level (world g)"
  shows "\<exists>g'. onl_announce X k g = Next g' \<and> energy (world g') = energy (world g)
              \<and> arena_level (world g') = arena_level (world g)"
proof (cases "arena_level (world g)")
  case True
  then show ?thesis by (simp add: onl_announce_def)
next
  case False
  with assms(3) obtain m where "play_ambient_sound X k g = Next (ext X (Sound m) g)"
    using play_ambient_sound_Next [of g k X] by auto
  with False assms(1,2) show ?thesis
    by (simp add: onl_announce_def keeps_ext arrival_calls_def)
qed

lemma onl_track_energy:
  assumes "keeps X arrival_calls energy" "keeps X arrival_calls arena_level"
  shows "\<exists>g'. onl_track X g = (if arena_level (world g) then Return g' else Next g')
              \<and> energy (world g') = energy (world g)
              \<and> arena_level (world g') = arena_level (world g)"
  using assms
  by (simp add: onl_track_def Let_def keeps_ext refresh_player_def arrival_calls_def)

lemma onl_settle_energy:
  assumes "keeps X arrival_calls energy"
  shows "\<exists>g'. onl_settle X k g = Next g'
              \<and> energy (world g') = max (energy (world g)) (move_energy k)"
  using assms
  by (simp add: onl_settle_def Let_def keeps_ext max_def arrival_calls_def)

text \<open>
  Claim C10, amended. Provided the procedures that \<^verbatim>\<open>on_new_level\<close> calls leave the player's energy
  and the arena flag alone: when \<^verbatim>\<open>on_new_level\<close> runs for a level that is not an arena level (and
  its ambient sound can be chosen, that is, the player is below the surface or the day
  length is not zero), it runs to its end and the player's energy afterwards is the
  greater of the energy before and the move threshold, so energy below the threshold is
  raised to exactly the threshold and energy at or above it is unchanged; when the arena
  flag is set, \<^verbatim>\<open>on_new_level\<close> returns early and the energy is unchanged, whatever it
  was.
\<close>

theorem on_new_level_energy:
  assumes "keeps X arrival_calls energy" and "keeps X arrival_calls arena_level"
  shows "(\<not> arena_level (world g) \<and> (depth (world g) \<noteq> 0 \<or> day_length k \<noteq> 0) \<longrightarrow>
            (\<exists>g'. on_new_level X k g = Next g'
                 \<and> energy (world g') = max (energy (world g)) (move_energy k)))
       \<and> (arena_level (world g) \<longrightarrow>
            (\<exists>g'. on_new_level X k g = Return g' \<and> energy (world g') = energy (world g)))"
proof (intro conjI impI)
  assume a: "\<not> arena_level (world g) \<and> (depth (world g) \<noteq> 0 \<or> day_length k \<noteq> 0)"
  then obtain g1 where 1: "onl_announce X k g = Next g1" "energy (world g1) = energy (world g)"
      "arena_level (world g1) = arena_level (world g)"
    using onl_announce_energy [OF assms, of g k] by auto
  obtain g2 where 2: "onl_track X g1 = Next g2" "energy (world g2) = energy (world g1)"
    using onl_track_energy [OF assms, of g1] a 1(3) by auto
  obtain g3 where 3: "onl_settle X k g2 = Next g3"
      "energy (world g3) = max (energy (world g2)) (move_energy k)"
    using onl_settle_energy [OF assms(1), of k g2] by auto
  show "\<exists>g'. on_new_level X k g = Next g'
             \<and> energy (world g') = max (energy (world g)) (move_energy k)"
    using 1 2 3 by (simp add: on_new_level_def)
next
  assume a: "arena_level (world g)"
  then obtain g1 where 1: "onl_announce X k g = Next g1" "energy (world g1) = energy (world g)"
      "arena_level (world g1) = arena_level (world g)"
    using onl_announce_energy [OF assms, of g k] by auto
  obtain g2 where 2: "onl_track X g1 = Return g2" "energy (world g2) = energy (world g1)"
    using onl_track_energy [OF assms, of g1] a 1(3) by auto
  show "\<exists>g'. on_new_level X k g = Return g' \<and> energy (world g') = energy (world g)"
    using 1 2 by (simp add: on_new_level_def)
qed

theorem on_new_level_energy_witness:
  "keeps plain arrival_calls energy \<and> keeps plain arrival_calls arena_level
   \<and> \<not> arena_level (world sample_game) \<and> depth (world sample_game) \<noteq> 0
   \<and> energy (world sample_game) = 0
   \<and> map_option (energy \<circ> world) (outcome (on_new_level plain sample_constants sample_game))
       = Some 100
   \<and> arena_level (world arena_game)
   \<and> map_option (energy \<circ> world) (outcome (on_new_level plain sample_constants arena_game))
       = Some 0"
proof -
  note t = on_new_level_energy [OF keeps_plain_energy keeps_plain_arena_level]
  have s: "\<not> arena_level (world sample_game)" "depth (world sample_game) \<noteq> 0"
    "energy (world sample_game) = 0" "move_energy sample_constants = 100"
    by (simp_all add: sample_game_def sample_world_def sample_constants_def)
  have a: "arena_level (world arena_game)" "energy (world arena_game) = 0"
    by (simp_all add: arena_game_def sample_game_def sample_world_def)
  from t [of sample_game sample_constants] s
  have 1: "map_option (energy \<circ> world)
             (outcome (on_new_level plain sample_constants sample_game)) = Some 100"
    by (auto simp: outcome_def)
  from t [of arena_game sample_constants] a
  have 2: "map_option (energy \<circ> world)
             (outcome (on_new_level plain sample_constants arena_game)) = Some 0"
    by (auto simp: outcome_def)
  show ?thesis using s a 1 2 keeps_plain_energy keeps_plain_arena_level by simp
qed

text \<open>
  The claim as it stands fails on an arena level: the player arrives with energy 0,
  below the threshold 100, and \<^verbatim>\<open>on_new_level\<close> ends with the energy still 0.
\<close>

theorem on_new_level_arena_counterexample:
  "energy (world arena_game) < move_energy sample_constants
   \<and> map_option (energy \<circ> world) (outcome (on_new_level plain sample_constants arena_game))
       = Some 0
   \<and> move_energy sample_constants = 100"
  by (simp add: arena_game_def sample_game_def sample_world_def sample_constants_def outcome_def
      on_new_level_def onl_announce_def onl_track_def Let_def refresh_player_def ext_def
      plain_simps plain_run_def)

section \<open>The blocks of the world tick\<close>

lemma steps_append:
  "steps (fs @ gs) s = (case steps fs s of Next s' \<Rightarrow> steps gs s' | Return s' \<Rightarrow> Return s' | Fault e \<Rightarrow> Fault e)"
  by (induction fs arbitrary: s) (auto split: flow.splits)

lemma outcome_simps [simp]:
  "outcome (Next s) = Some s" "outcome (Return s) = Some s" "outcome (Fault e) = None"
  by (simp_all add: outcome_def)

lemma calmI: "(\<And>g g'. outcome (f g) = Some g' \<Longrightarrow> turn g' = turn g \<and> daycount g' = daycount g) \<Longrightarrow> calm f"
  by (simp add: calm_def)

lemma calmD: "calm f \<Longrightarrow> outcome (f g) = Some g' \<Longrightarrow> turn g' = turn g \<and> daycount g' = daycount g"
  by (simp add: calm_def)

lemma calm_steps: "list_all calm fs \<Longrightarrow> calm (steps fs)"
proof (induction fs)
  case Nil
  show ?case by (rule calmI) simp
next
  case (Cons f fs)
  then have f: "calm f" and fs: "calm (steps fs)" by simp_all
  show ?case
  proof (rule calmI)
    fix g g' assume o: "outcome (steps (f # fs) g) = Some g'"
    show "turn g' = turn g \<and> daycount g' = daycount g"
    proof (cases "f g")
      case (Fault e) with o show ?thesis by simp
    next
      case (Return s) with o calmD [OF f, of g s] show ?thesis by simp
    next
      case (Next s)
      with o have "outcome (steps fs s) = Some g'" by simp
      from calmD [OF fs this] calmD [OF f, of g s] Next show ?thesis by simp
    qed
  qed
qed

lemma calm_play_ambient_sound: "calm (play_ambient_sound X k)"
  by (rule calmI) (auto simp: play_ambient_sound_def ext_def split: if_splits sum.splits)

lemma calm_pw_compact: "calm (pw_compact X k)"
  by (rule calmI) (auto simp: pw_compact_def ext_def Let_def split: if_splits)

lemma calm_pw_ambient: "calm (pw_ambient X k)"
  using calmD [OF calm_play_ambient_sound]
  by (intro calmI) (auto simp: pw_ambient_def split: if_splits sum.splits)

lemma calm_pw_unlight: "calm (pw_unlight X)"
  by (rule calmI) (auto simp: pw_unlight_def split: if_splits)

lemma calm_pw_generation: "calm (pw_generation X k)"
  by (rule calmI) (auto simp: pw_generation_def ext_def after_draw_def Let_def split: if_splits)

lemma calm_pw_poison: "calm (pw_poison X)"
  by (rule calmI) (auto simp: pw_poison_def ext_def Let_def split: if_splits)

lemma calm_pw_cut: "calm (pw_cut X)"
  by (rule calmI) (auto simp: pw_cut_def ext_def Let_def split: if_splits)

lemma calm_pw_bloodlust: "calm (pw_bloodlust X)"
  by (rule calmI) (auto simp: pw_bloodlust_def ext_def Let_def split: if_splits)

lemma calm_pw_heal: "calm (pw_heal X)"
  by (rule calmI) (auto simp: pw_heal_def ext_def split: if_splits)

lemma calm_pw_blackbreath: "calm (pw_blackbreath X k)"
  by (rule calmI) (auto simp: pw_blackbreath_def one_in_2_def ext_def after_draw_def Let_def split: if_splits)

lemma calm_digest_normally: "calm (digest_normally X k)"
  by (rule calmI) (auto simp: digest_normally_def ext_def split: if_splits sum.splits)

lemma calm_fast_metabolism: "calm (fast_metabolism X k)"
  by (rule calmI) (auto simp: fast_metabolism_def ext_def Let_def split: if_splits)

lemma calm_pw_digest: "calm (pw_digest X k)"
proof (rule calmI)
  fix g g' assume o: "outcome (pw_digest X k g) = Some g'"
  have "calm (steps [digest_normally X k, fast_metabolism X k])"
    by (rule calm_steps) (simp add: calm_digest_normally calm_fast_metabolism)
  from calmD [OF this] o show "turn g' = turn g \<and> daycount g' = daycount g"
    by (auto simp: pw_digest_def ext_def Let_def simp del: steps.simps split: if_splits sum.splits)
qed

lemma calm_pw_starve: "calm (pw_starve X k)"
  by (rule calmI) (auto simp: pw_starve_def ext_def after_draw_def Let_def split: if_splits)

lemma calm_pw_regen: "calm (pw_regen X)"
  by (rule calmI) (auto simp: pw_regen_def ext_def Let_def split: if_splits)

lemma decrease_timeout_calm:
  "turn (decrease_timeout X a i g) = turn g \<and> daycount (decrease_timeout X a i g) = daycount g"
  by (simp add: decrease_timeout_def Let_def ext_turn ext_daycount)

lemma decrease_timeouts_calm:
  "turn (decrease_timeouts X k g) = turn g \<and> daycount (decrease_timeouts X k g) = daycount g"
proof -
  have "turn (fold (decrease_timeout X a) ts g) = turn g
        \<and> daycount (fold (decrease_timeout X a) ts g) = daycount g" for a ts
    by (induction ts arbitrary: g) (simp_all add: decrease_timeout_calm)
  then show ?thesis by (simp add: decrease_timeouts_def Let_def ext_turn ext_daycount)
qed

lemma calm_pw_timeouts: "calm (pw_timeouts X k)"
  by (rule calmI) (auto simp: pw_timeouts_def ext_turn ext_daycount decrease_timeouts_calm)

lemma calm_pw_noise_scent: "calm (pw_noise_scent X)"
  by (rule calmI) (auto simp: pw_noise_scent_def Let_def split: if_splits option.splits)

lemma calm_pw_inventory: "calm (pw_inventory X k)"
  by (rule calmI) (auto simp: pw_inventory_def ext_def after_draw_def Let_def split: if_splits)

lemma calm_pw_recall: "calm (pw_recall X)"
  by (rule calmI) (auto simp: pw_recall_def ext_def Let_def split: if_splits)

lemma calm_pw_descent: "calm (pw_descent X k)"
  by (rule calmI) (auto simp: pw_descent_def ext_def Let_def c_div_def split: if_splits sum.splits)

section \<open>The day counter\<close>

lemma pw_compact_Next:
  assumes "keeps X calendar_calls depth"
  shows "\<exists>g1. pw_compact X k g = Next g1 \<and> depth (world g1) = depth (world g)
              \<and> turn g1 = turn g \<and> daycount g1 = daycount g"
  using assms
  by (simp add: pw_compact_def Let_def keeps_ext calendar_calls_def ext_turn ext_daycount)

lemma pw_ambient_Next:
  assumes "keeps X calendar_calls depth" and "outcome (pw_ambient X k g) = Some g1"
  shows "pw_ambient X k g = Next g1 \<and> depth (world g1) = depth (world g)
         \<and> turn g1 = turn g \<and> daycount g1 = daycount g"
  using assms play_ambient_sound_cases [of X k g]
  by (auto simp: pw_ambient_def keeps_ext calendar_calls_def ext_turn ext_daycount
      split: sum.splits if_splits)

lemma pw_daylight_daycount:
  assumes "outcome (pw_daylight X k g) = Some g1"
  shows "pw_daylight X k g = Next g1 \<and> turn g1 = turn g
         \<and> daycount g1 = (if depth (world g) \<noteq> 0 \<and> turn g smod (10 * store_turns k) = 0
                           then daycount g + 1 else daycount g)"
  using assms
  by (auto simp: pw_daylight_def c_mod_def ext_turn ext_daycount Let_def
      split: sum.splits if_splits)

lemma calm_after_daylight:
  "calm (steps [pw_unlight X, pw_generation X k,
            pw_poison X, pw_cut X, pw_bloodlust X, pw_heal X, pw_blackbreath X k,
            pw_digest X k, pw_starve X k,
            pw_regen X, pw_timeouts X k, pw_noise_scent X, pw_inventory X k,
            pw_recall X, pw_descent X k])"
  by (rule calm_steps)
    (simp add: calm_pw_unlight calm_pw_generation calm_pw_poison calm_pw_cut calm_pw_bloodlust
      calm_pw_heal calm_pw_blackbreath calm_pw_digest calm_pw_starve calm_pw_regen
      calm_pw_timeouts calm_pw_noise_scent calm_pw_inventory calm_pw_recall calm_pw_descent)

text \<open>
  Claim C6, amended. Provided compacting the monsters and playing a sound do not change
  the player's depth: a world tick that does not fault adds exactly 1 to the day counter
  (an unsigned 16-bit counter) when the player is below the surface, at a depth other
  than 0, and the turn is a multiple of ten times the store period
  \<^verbatim>\<open>z_info->store_turns\<close>; in every other tick, in particular in every tick on the
  surface, the day counter is unchanged.
\<close>

theorem process_world_daycount:
  assumes "keeps X calendar_calls depth" and "outcome (process_world X k g) = Some g'"
  shows "daycount g' = (if depth (world g) \<noteq> 0 \<and> turn g smod (10 * store_turns k) = 0
                        then daycount g + 1 else daycount g)"
proof -
  let ?rest = "[pw_unlight X, pw_generation X k,
            pw_poison X, pw_cut X, pw_bloodlust X, pw_heal X, pw_blackbreath X k,
            pw_digest X k, pw_starve X k,
            pw_regen X, pw_timeouts X k, pw_noise_scent X, pw_inventory X k,
            pw_recall X, pw_descent X k]"
  obtain g1 where 1: "pw_compact X k g = Next g1" "depth (world g1) = depth (world g)"
      "turn g1 = turn g" "daycount g1 = daycount g"
    using pw_compact_Next [OF assms(1)] by blast
  have pw: "process_world X k g = steps (pw_ambient X k # pw_daylight X k # ?rest) g1"
    using 1(1) by (simp add: process_world_def)
  obtain g2 where o2: "outcome (pw_ambient X k g1) = Some g2"
    using assms(2) unfolding pw by (cases "pw_ambient X k g1") auto
  from pw_ambient_Next [OF assms(1) o2]
  have 2: "pw_ambient X k g1 = Next g2" "depth (world g2) = depth (world g1)"
      "turn g2 = turn g1" "daycount g2 = daycount g1" by auto
  have pw2: "process_world X k g = steps (pw_daylight X k # ?rest) g2"
    using pw 2(1) by simp
  obtain g3 where o3: "outcome (pw_daylight X k g2) = Some g3"
    using assms(2) unfolding pw2 by (cases "pw_daylight X k g2") auto
  from pw_daylight_daycount [OF o3]
  have 3: "pw_daylight X k g2 = Next g3"
    "daycount g3 = (if depth (world g2) \<noteq> 0 \<and> turn g2 smod (10 * store_turns k) = 0
                           then daycount g2 + 1 else daycount g2)" by auto
  have "process_world X k g = steps ?rest g3"
    using pw2 3(1) by simp
  with assms(2) have "outcome (steps ?rest g3) = Some g'" by simp
  from calmD [OF calm_after_daylight this] have "daycount g' = daycount g3" by simp
  with 3(2) 2 1 show ?thesis by simp
qed

lemma keeps_plain_depth: "keeps plain C depth"
  by (simp add: keeps_def plain_def plain_run_def Let_def split: call.splits)

theorem process_world_daycount_witness:
  "keeps plain calendar_calls depth
   \<and> depth (world dungeon_game) = 1 \<and> turn dungeon_game smod (10 * store_turns sample_constants) = 0
   \<and> map_option daycount (outcome (process_world plain sample_constants dungeon_game))
       = Some (daycount dungeon_game + 1)
   \<and> depth (world town_game) = 0
   \<and> map_option daycount (outcome (process_world plain sample_constants town_game))
       = Some (daycount town_game)"
proof -
  have d: "depth (world dungeon_game) = 1" "turn dungeon_game smod (10 * store_turns sample_constants) = 0"
    "depth (world town_game) = 0"
    by (simp_all add: dungeon_game_def town_game_def sample_world_def sample_constants_def
        signed_modulo_int_def)
  obtain g1 where 1: "outcome (process_world plain sample_constants dungeon_game) = Some g1"
  proof -
    have "outcome (process_world plain sample_constants dungeon_game) \<noteq> None" by code_simp
    then show ?thesis using that by auto
  qed
  obtain g2 where 2: "outcome (process_world plain sample_constants town_game) = Some g2"
  proof -
    have "outcome (process_world plain sample_constants town_game) \<noteq> None" by code_simp
    then show ?thesis using that by auto
  qed
  from process_world_daycount [OF keeps_plain_depth 1] process_world_daycount [OF keeps_plain_depth 2]
  show ?thesis using d 1 2 keeps_plain_depth by simp
qed

text \<open>
  The claim as it stands fails both ways at turn 100000, a multiple of ten day lengths
  and of ten store periods: on the surface the tick leaves the day counter at 0, in the
  dungeon it raises it to 1.
\<close>

theorem process_world_daycount_counterexample:
  "depth (world town_game) = 0
   \<and> turn town_game smod (10 * day_length sample_constants) = 0
   \<and> turn town_game smod (10 * store_turns sample_constants) = 0
   \<and> map_option daycount (outcome (process_world plain sample_constants town_game))
       = Some (daycount town_game)
   \<and> depth (world dungeon_game) = 1
   \<and> map_option daycount (outcome (process_world plain sample_constants dungeon_game))
       = Some (daycount dungeon_game + 1)"
  by code_simp

section \<open>Digestion\<close>

lemma digestion_spec:
  assumes "0 \<le> speed w" "speed w < 200" "food_value k \<noteq> 0"
  shows "digestion X k w =
           Inr (spec_digestion ((uint (extract_energy ! nat (speed w)) * move_energy k) sdiv 100)
                 (food_value k) (test X (Player_of_has OF_REGEN) w)
                 (test X (Player_of_has OF_SLOW_DIGEST) w))"
  using assms
  by (simp add: digestion_def turn_energy_def c_div_def spec_digestion_def Let_def max_def mult.commute)

text \<open>
  Claim C8, amended. For a speed within the energy table and a food value other than
  zero, the block ``Digest'' of a world tick does this. When the player is at the grade
  ``Full'', \<^verbatim>\<open>player_dec_timed\<close> is called on the food clock with 5000 divided by the
  food value, in every world tick, and the bonus update is requested. When the player
  is not ``Full'': if the turn is a multiple of 100 (every tenth world tick),
  \<^verbatim>\<open>player_dec_timed\<close> is called on the food clock with the round energy for the
  player's speed scaled by the food value, doubled under regeneration, then halved under
  slow digestion, and at least 1, and otherwise nothing is digested normally; then, in
  every world tick, if the timed healing is active, \<^verbatim>\<open>player_dec_timed\<close> is called on
  the food clock with 8 times the food value, and the timed healing is ended if the
  food clock has fallen below the mark of hunger.
\<close>

theorem pw_digest_cases:
  assumes "0 \<le> speed (world g)" and "speed (world g) < 200" and "food_value k \<noteq> 0"
  shows "pw_digest X k g =
           (if test X (Player_timed_grade_eq TMD_FOOD ''Full'') (world g)
            then Next (bonus (ext X (Player_dec_timed TMD_FOOD (5000 sdiv food_value k) False True) g))
            else
              (let g1 =
                 (if turn g smod 100 = 0
                  then ext X (Player_dec_timed TMD_FOOD
                         (spec_digestion
                            ((uint (extract_energy ! nat (speed (world g))) * move_energy k) sdiv 100)
                            (food_value k) (test X (Player_of_has OF_REGEN) (world g))
                            (test X (Player_of_has OF_SLOW_DIGEST) (world g))) False True) g
                  else g);
                   g2 = ext X (Player_dec_timed TMD_FOOD (8 * food_value k) False True) g1
               in Next (if timed (world g1) TMD_HEAL = 0 then g1
                        else if timed (world g2) TMD_FOOD < PY_FOOD_HUNGRY k
                        then ext X (Player_set_timed TMD_HEAL 0 True True) g2
                        else g2)))"
  using assms digestion_spec [OF assms, of X]
  by (simp add: pw_digest_def digest_normally_def c_div_def bonus_def Let_def fast_metabolism_def)

theorem pw_digest_cases_witness:
  "0 \<le> speed (world century_game) \<and> speed (world century_game) < 200
   \<and> food_value sample_constants \<noteq> 0
   \<and> \<not> test plain (Player_timed_grade_eq TMD_FOOD ''Full'') (world century_game)
   \<and> turn century_game smod 100 = 0
   \<and> food_clock century_game = 5000
   \<and> map_option food_clock (outcome (pw_digest plain sample_constants century_game)) = Some 4990
   \<and> test plain (Player_timed_grade_eq TMD_FOOD ''Full'') (world gorged_game)
   \<and> turn gorged_game smod 100 = 10
   \<and> food_clock gorged_game = 16000
   \<and> map_option food_clock (outcome (pw_digest plain sample_constants gorged_game)) = Some 15950
   \<and> \<not> test plain (Player_timed_grade_eq TMD_FOOD ''Full'') (world healing_game)
   \<and> turn healing_game smod 100 = 10
   \<and> timed (world healing_game) TMD_HEAL = 5
   \<and> food_clock healing_game = 5000
   \<and> map_option food_clock (outcome (pw_digest plain sample_constants healing_game)) = Some 4200"
proof -
  have c: "0 \<le> speed (world century_game)" "speed (world century_game) < 200"
      "food_value sample_constants \<noteq> 0"
      "\<not> test plain (Player_timed_grade_eq TMD_FOOD ''Full'') (world century_game)"
      "turn century_game smod 100 = 0" "food_clock century_game = 5000"
      "timed (world century_game) TMD_HEAL = 0"
    by (simp_all add: century_game_def sample_game_def sample_world_def sample_constants_def
        plain_simps plain_test_def food_clock_def)
  have g: "0 \<le> speed (world gorged_game)" "speed (world gorged_game) < 200"
      "test plain (Player_timed_grade_eq TMD_FOOD ''Full'') (world gorged_game)"
      "turn gorged_game smod 100 = 10" "food_clock gorged_game = 16000"
    by (simp_all add: gorged_game_def sample_game_def sample_world_def
        plain_simps plain_test_def food_clock_def signed_modulo_int_def)
  have h: "0 \<le> speed (world healing_game)" "speed (world healing_game) < 200"
      "\<not> test plain (Player_timed_grade_eq TMD_FOOD ''Full'') (world healing_game)"
      "turn healing_game smod 100 = 10" "food_clock healing_game = 5000"
      "timed (world healing_game) TMD_HEAL = 5"
    by (simp_all add: healing_game_def sample_game_def sample_world_def
        plain_simps plain_test_def food_clock_def signed_modulo_int_def)
  have e: "extract_energy ! nat (speed (world century_game)) = 10"
    by (simp add: century_game_def sample_game_def sample_world_def extract_energy_def)
  have m: "move_energy sample_constants = 100" "food_value sample_constants = 100"
      "PY_FOOD_HUNGRY sample_constants = 2000"
    by (simp_all add: sample_constants_def)
  from pw_digest_cases [OF c(1,2,3), of plain] c(4,5,7)
  have "pw_digest plain sample_constants century_game =
          Next (ext plain (Player_dec_timed TMD_FOOD 10 False True) century_game)"
    by (simp add: e m spec_digestion_def plain_simps plain_test_def ext_def plain_run_def Let_def)
  then have 1: "map_option food_clock (outcome (pw_digest plain sample_constants century_game)) = Some 4990"
    using c(6) by (simp add: food_clock_def ext_def plain_simps plain_run_def)
  from pw_digest_cases [OF g(1,2) c(3), of plain] g(3)
  have "pw_digest plain sample_constants gorged_game =
          Next (bonus (ext plain (Player_dec_timed TMD_FOOD 50 False True) gorged_game))"
    by (simp add: m)
  then have 2: "map_option food_clock (outcome (pw_digest plain sample_constants gorged_game)) = Some 15950"
    using g(5) by (simp add: food_clock_def ext_def plain_simps plain_run_def bonus_def)
  from pw_digest_cases [OF h(1,2) c(3), of plain] h(3,4,5,6)
  have "pw_digest plain sample_constants healing_game =
          Next (ext plain (Player_dec_timed TMD_FOOD 800 False True) healing_game)"
    by (simp add: m food_clock_def plain_simps ext_def plain_run_def Let_def)
  then have 3: "map_option food_clock (outcome (pw_digest plain sample_constants healing_game)) = Some 4200"
    using h(5) by (simp add: food_clock_def ext_def plain_simps plain_run_def)
  show ?thesis using c g h 1 2 3 by simp
qed

text \<open>
  The claim as it stands fails in the world tick of turn 10: the player is not ``Full''
  and the food clock stays at 5000, where the collaborator would have subtracted any
  amount digested; in the tick of turn 100 it falls to 4990.
\<close>

theorem process_world_digest_counterexample:
  "turn sample_game smod 10 = 0
   \<and> \<not> test plain (Player_timed_grade_eq TMD_FOOD ''Full'') (world sample_game)
   \<and> food_clock sample_game = 5000
   \<and> map_option food_clock (outcome (process_world plain sample_constants sample_game)) = Some 5000
   \<and> map_option food_clock (outcome (process_world plain sample_constants century_game)) = Some 4990"
  by code_simp

section \<open>Death in the world tick\<close>

lemma steps_Return:
  "steps fs g = Next g1 \<Longrightarrow> f g1 = Return d \<Longrightarrow> steps (fs @ f # hs) g = Return d"
  by (simp add: steps_append)

lemma pw_poison_dead:
  "timed (world g) TMD_POISONED \<noteq> 0 \<Longrightarrow> is_dead (world (poison_hit X g))
   \<Longrightarrow> pw_poison X g = Return (poison_hit X g)"
  by (simp add: pw_poison_def poison_hit_def Let_def)

lemma pw_cut_dead:
  "timed (world g) TMD_CUT \<noteq> 0 \<Longrightarrow> is_dead (world (cut_hit X g))
   \<Longrightarrow> pw_cut X g = Return (cut_hit X g)"
  by (simp add: pw_cut_def cut_hit_def cut_damage_def Let_def)

lemma pw_bloodlust_dead:
  "timed (world g) TMD_BLOODLUST \<noteq> 0 \<Longrightarrow> is_dead (world (bloodlust_hit X g))
   \<Longrightarrow> pw_bloodlust X g = Return (bloodlust_hit X g)"
  by (simp add: pw_bloodlust_def bloodlust_hit_def Let_def)

lemma pw_starve_dead:
  "\<not> test X (Player_timed_grade_eq TMD_FOOD ''Faint'') (world g)
   \<Longrightarrow> test X (Player_timed_grade_eq TMD_FOOD ''Starving'') (world g)
   \<Longrightarrow> is_dead (world (starve_hit X k g))
   \<Longrightarrow> pw_starve X k g = Return (starve_hit X k g)"
  by (simp add: pw_starve_def starve_hit_def Let_def)

text \<open>
  Claim C3, amended. When the hit of the poison, of the cuts or of the bloodlust leaves
  the player dead, \<^verbatim>\<open>process_world\<close> returns at once: its final state is the state
  right after that hit, so that neither the food clock nor \<^verbatim>\<open>decrease_timeouts\<close> nor
  the countdowns of recall and deep descent are touched in that tick. When the hit of
  the starvation leaves the player dead, \<^verbatim>\<open>process_world\<close> returns at once as well,
  with the state right after that hit, so that \<^verbatim>\<open>decrease_timeouts\<close> and the two
  countdowns have not run; the block ``Digest'' has run before that hit in the same
  tick. In each case the blocks before the hit are supposed to have ended without a
  fault and without a return.
\<close>

theorem process_world_death:
  "(steps (before_hazards X k) g = Next g0 \<and> timed (world g0) TMD_POISONED \<noteq> 0
      \<and> is_dead (world (poison_hit X g0))
    \<longrightarrow> process_world X k g = Return (poison_hit X g0))
   \<and> (steps (before_hazards X k @ [pw_poison X]) g = Next g1 \<and> timed (world g1) TMD_CUT \<noteq> 0
      \<and> is_dead (world (cut_hit X g1))
    \<longrightarrow> process_world X k g = Return (cut_hit X g1))
   \<and> (steps (before_hazards X k @ [pw_poison X, pw_cut X]) g = Next g2
      \<and> timed (world g2) TMD_BLOODLUST \<noteq> 0 \<and> is_dead (world (bloodlust_hit X g2))
    \<longrightarrow> process_world X k g = Return (bloodlust_hit X g2))
   \<and> (steps (before_hazards X k @ before_starving X k) g = Next g3
      \<and> \<not> test X (Player_timed_grade_eq TMD_FOOD ''Faint'') (world g3)
      \<and> test X (Player_timed_grade_eq TMD_FOOD ''Starving'') (world g3)
      \<and> is_dead (world (starve_hit X k g3))
    \<longrightarrow> process_world X k g = Return (starve_hit X k g3))"
proof (intro conjI impI)
  assume a: "steps (before_hazards X k) g = Next g0 \<and> timed (world g0) TMD_POISONED \<noteq> 0
      \<and> is_dead (world (poison_hit X g0))"
  then have r: "pw_poison X g0 = Return (poison_hit X g0)" by (simp add: pw_poison_dead)
  have "process_world X k g = steps (before_hazards X k @ pw_poison X #
          [pw_cut X, pw_bloodlust X, pw_heal X, pw_blackbreath X k,
            pw_digest X k, pw_starve X k,
            pw_regen X, pw_timeouts X k, pw_noise_scent X, pw_inventory X k,
            pw_recall X, pw_descent X k]) g"
    by (simp add: process_world_def before_hazards_def)
  also have "\<dots> = Return (poison_hit X g0)"
    using a by (intro steps_Return [where f = "pw_poison X", OF _ r]) simp
  finally show "process_world X k g = Return (poison_hit X g0)" .
next
  assume a: "steps (before_hazards X k @ [pw_poison X]) g = Next g1 \<and> timed (world g1) TMD_CUT \<noteq> 0
      \<and> is_dead (world (cut_hit X g1))"
  then have r: "pw_cut X g1 = Return (cut_hit X g1)" by (simp add: pw_cut_dead)
  have "process_world X k g = steps ((before_hazards X k @ [pw_poison X]) @ pw_cut X #
          [pw_bloodlust X, pw_heal X, pw_blackbreath X k,
            pw_digest X k, pw_starve X k,
            pw_regen X, pw_timeouts X k, pw_noise_scent X, pw_inventory X k,
            pw_recall X, pw_descent X k]) g"
    by (simp add: process_world_def before_hazards_def)
  also have "\<dots> = Return (cut_hit X g1)"
    using a by (intro steps_Return [where f = "pw_cut X", OF _ r]) simp
  finally show "process_world X k g = Return (cut_hit X g1)" .
next
  assume a: "steps (before_hazards X k @ [pw_poison X, pw_cut X]) g = Next g2
      \<and> timed (world g2) TMD_BLOODLUST \<noteq> 0 \<and> is_dead (world (bloodlust_hit X g2))"
  then have r: "pw_bloodlust X g2 = Return (bloodlust_hit X g2)" by (simp add: pw_bloodlust_dead)
  have "process_world X k g = steps ((before_hazards X k @ [pw_poison X, pw_cut X]) @ pw_bloodlust X #
          [pw_heal X, pw_blackbreath X k,
            pw_digest X k, pw_starve X k,
            pw_regen X, pw_timeouts X k, pw_noise_scent X, pw_inventory X k,
            pw_recall X, pw_descent X k]) g"
    by (simp add: process_world_def before_hazards_def)
  also have "\<dots> = Return (bloodlust_hit X g2)"
    using a by (intro steps_Return [where f = "pw_bloodlust X", OF _ r]) simp
  finally show "process_world X k g = Return (bloodlust_hit X g2)" .
next
  assume a: "steps (before_hazards X k @ before_starving X k) g = Next g3
      \<and> \<not> test X (Player_timed_grade_eq TMD_FOOD ''Faint'') (world g3)
      \<and> test X (Player_timed_grade_eq TMD_FOOD ''Starving'') (world g3)
      \<and> is_dead (world (starve_hit X k g3))"
  then have r: "pw_starve X k g3 = Return (starve_hit X k g3)" by (simp add: pw_starve_dead)
  have "process_world X k g = steps ((before_hazards X k @ before_starving X k) @ pw_starve X k #
          [pw_regen X, pw_timeouts X k, pw_noise_scent X, pw_inventory X k,
            pw_recall X, pw_descent X k]) g"
    by (simp add: process_world_def before_hazards_def before_starving_def)
  also have "\<dots> = Return (starve_hit X k g3)"
    using a by (intro steps_Return [where f = "pw_starve X k", OF _ r]) simp
  finally show "process_world X k g = Return (starve_hit X k g3)" .
qed

lemma frail_simps:
  "test frail = plain_test" "calc frail = plain_calc" "roll frail = (\<lambda>d w. (0, w))"
  "run frail (Player_over_exert f n a) w = w\<lparr>is_dead := True\<rparr>"
  by (simp_all add: frail_def plain_def)

lemma quiet_start:
  assumes "turn g = 100" and "depth (world g) = 1"
    and "test X = plain_test" and "calc X = plain_calc" and "roll X = (\<lambda>d w. (0, w))"
  shows "steps (before_hazards X sample_constants) g = Next g"
  using assms
  by (simp add: before_hazards_def pw_compact_def pw_ambient_def pw_daylight_def pw_unlight_def
      pw_generation_def plain_calc_def plain_test_def sample_constants_def c_mod_def
      signed_divide_int_def signed_modulo_int_def Let_def after_draw_def drawn_def)

theorem process_world_death_witness:
  "timed (world poisoned_game) TMD_POISONED = 5
   \<and> is_dead (world (poison_hit plain poisoned_game))
   \<and> process_world plain sample_constants poisoned_game = Return (poison_hit plain poisoned_game)
   \<and> food_clock poisoned_game = 5000 \<and> turn poisoned_game smod 100 = 0
   \<and> map_option food_clock (outcome (process_world plain sample_constants poisoned_game))
       = Some 5000
   \<and> timed (world wounded_game) TMD_CUT = 5
   \<and> is_dead (world (cut_hit plain wounded_game))
   \<and> process_world plain sample_constants wounded_game = Return (cut_hit plain wounded_game)
   \<and> map_option food_clock (outcome (process_world plain sample_constants wounded_game))
       = Some 5000
   \<and> timed (world raging_game) TMD_BLOODLUST = 5
   \<and> is_dead (world (bloodlust_hit frail raging_game))
   \<and> process_world frail sample_constants raging_game = Return (bloodlust_hit frail raging_game)
   \<and> map_option food_clock (outcome (process_world frail sample_constants raging_game))
       = Some 5000
   \<and> test plain (Player_timed_grade_eq TMD_FOOD ''Starving'')
         (world (ext plain (Player_dec_timed TMD_FOOD 10 False True) starving_game))
   \<and> is_dead (world (starve_hit plain sample_constants
                        (ext plain (Player_dec_timed TMD_FOOD 10 False True) starving_game)))
   \<and> process_world plain sample_constants starving_game
       = Return (starve_hit plain sample_constants
                   (ext plain (Player_dec_timed TMD_FOOD 10 False True) starving_game))"
proof -
  note games = poisoned_game_def wounded_game_def raging_game_def starving_game_def
    century_game_def sample_game_def sample_world_def
  have t: "turn poisoned_game = 100" "depth (world poisoned_game) = 1"
      "turn wounded_game = 100" "depth (world wounded_game) = 1"
      "turn raging_game = 100" "depth (world raging_game) = 1"
      "turn starving_game = 100" "depth (world starving_game) = 1"
    by (simp_all add: games)
  have p0: "steps (before_hazards plain sample_constants) poisoned_game = Next poisoned_game"
    by (rule quiet_start [OF t(1,2)]) (simp_all add: plain_simps)
  have p1: "timed (world poisoned_game) TMD_POISONED = 5"
      "is_dead (world (poison_hit plain poisoned_game))"
      "food_clock (poison_hit plain poisoned_game) = 5000"
      "food_clock poisoned_game = 5000" "turn poisoned_game smod 100 = 0"
    by (simp_all add: poison_hit_def ext_def plain_simps plain_calc_def plain_run_def games
        food_clock_def Let_def)
  from process_world_death [of plain sample_constants poisoned_game poisoned_game] p0 p1
  have 1: "process_world plain sample_constants poisoned_game
             = Return (poison_hit plain poisoned_game)"
    by simp
  have c0: "steps (before_hazards plain sample_constants @ [pw_poison plain]) wounded_game
              = Next wounded_game"
    using quiet_start [OF t(3,4), of plain]
    by (simp add: steps_append plain_simps pw_poison_def games)
  have c1: "timed (world wounded_game) TMD_CUT = 5"
      "is_dead (world (cut_hit plain wounded_game))"
      "food_clock (cut_hit plain wounded_game) = 5000"
    by (simp_all add: cut_hit_def cut_damage_def ext_def plain_simps plain_calc_def plain_test_def
        plain_run_def games food_clock_def Let_def)
  from process_world_death [of plain sample_constants wounded_game _ wounded_game] c0 c1
  have 2: "process_world plain sample_constants wounded_game = Return (cut_hit plain wounded_game)"
    by simp
  have b0: "steps (before_hazards frail sample_constants @ [pw_poison frail, pw_cut frail])
              raging_game = Next raging_game"
    using quiet_start [OF t(5,6), of frail]
    by (simp add: steps_append frail_simps pw_poison_def pw_cut_def games)
  have b1: "timed (world raging_game) TMD_BLOODLUST = 5"
      "is_dead (world (bloodlust_hit frail raging_game))"
      "food_clock (bloodlust_hit frail raging_game) = 5000"
    by (simp_all add: bloodlust_hit_def ext_def frail_simps games food_clock_def)
  from process_world_death [of frail sample_constants raging_game _ _ raging_game] b0 b1
  have 3: "process_world frail sample_constants raging_game
             = Return (bloodlust_hit frail raging_game)"
    by simp
  let ?g3 = "ext plain (Player_dec_timed TMD_FOOD 10 False True) starving_game"
  have d: "pw_digest plain sample_constants starving_game = Next ?g3"
    by (simp add: pw_digest_def digest_normally_def fast_metabolism_def digestion_def
        turn_energy_def c_div_def extract_energy_def plain_simps plain_test_def
        sample_constants_def games signed_divide_int_def signed_modulo_int_def Let_def
        ext_def plain_run_def)
  have s0: "steps (before_hazards plain sample_constants @ before_starving plain sample_constants)
              starving_game = Next ?g3"
    using quiet_start [OF t(7,8), of plain] d
    by (simp add: steps_append plain_simps before_starving_def pw_poison_def pw_cut_def
        pw_bloodlust_def pw_heal_def pw_blackbreath_def games)
  have s1: "\<not> test plain (Player_timed_grade_eq TMD_FOOD ''Faint'') (world ?g3)"
      "test plain (Player_timed_grade_eq TMD_FOOD ''Starving'') (world ?g3)"
      "is_dead (world (starve_hit plain sample_constants ?g3))"
    by (simp_all add: starve_hit_def ext_def plain_simps plain_calc_def plain_test_def
        plain_run_def sample_constants_def games signed_divide_int_def Let_def)
  from process_world_death [of plain sample_constants starving_game _ _ _ ?g3] s0 s1
  have 4: "process_world plain sample_constants starving_game
             = Return (starve_hit plain sample_constants ?g3)"
    by simp
  show ?thesis
    using p1 c1 b1 s1 by (simp add: 1 2 3 4)
qed

text \<open>
  The claim as it stands fails for starvation: at turn 100 a starving player with a
  food clock of 95 and no hit points left, neither poisoned nor cut nor in bloodlust,
  digests 10 units and then dies of the starvation hit; the tick has updated the food
  clock to 85.
\<close>

theorem process_world_starvation_counterexample:
  "food_clock starving_game = 95
   \<and> timed (world starving_game) TMD_POISONED = 0 \<and> timed (world starving_game) TMD_CUT = 0
   \<and> timed (world starving_game) TMD_BLOODLUST = 0
   \<and> test plain (Player_timed_grade_eq TMD_FOOD ''Starving'') (world starving_game)
   \<and> left_early (process_world plain sample_constants starving_game)
   \<and> map_option (is_dead \<circ> world) (outcome (process_world plain sample_constants starving_game))
       = Some True
   \<and> map_option food_clock (outcome (process_world plain sample_constants starving_game))
       = Some 85"
  by code_simp

section \<open>The turn counter in the main loop\<close>

lemma process_world_turn:
  assumes "outcome (process_world X k g) = Some g'"
  shows "turn g' = turn g"
proof -
  let ?rest = "[pw_unlight X, pw_generation X k,
            pw_poison X, pw_cut X, pw_bloodlust X, pw_heal X, pw_blackbreath X k,
            pw_digest X k, pw_starve X k,
            pw_regen X, pw_timeouts X k, pw_noise_scent X, pw_inventory X k,
            pw_recall X, pw_descent X k]"
  have pw: "process_world X k g = steps ([pw_compact X k, pw_ambient X k] @ pw_daylight X k # ?rest) g"
    by (simp add: process_world_def)
  have c: "calm (steps [pw_compact X k, pw_ambient X k])"
    by (rule calm_steps) (simp add: calm_pw_compact calm_pw_ambient)
  show ?thesis
  proof (cases "steps [pw_compact X k, pw_ambient X k] g")
    case (Fault e)
    with assms show ?thesis unfolding pw steps_append by simp
  next
    case (Return g1)
    with assms calmD [OF c, of g g1] show ?thesis unfolding pw steps_append by simp
  next
    case (Next g1)
    with calmD [OF c, of g g1] have t1: "turn g1 = turn g" by simp
    from Next assms have o: "outcome (steps (pw_daylight X k # ?rest) g1) = Some g'"
      unfolding pw steps_append by simp
    then obtain g2 where o2: "outcome (pw_daylight X k g1) = Some g2"
      by (cases "pw_daylight X k g1") auto
    from pw_daylight_daycount [OF o2] have 2: "pw_daylight X k g1 = Next g2" "turn g2 = turn g1"
      by auto
    with o have "outcome (steps ?rest g2) = Some g'" by simp
    from calmD [OF calm_after_daylight this] 2 t1 show ?thesis by simp
  qed
qed

lemma refresh_turn: "turn (refresh X g) = turn g"
  by (simp add: refresh_def ext_turn)

lemma after_monsters_turn: "turn (after_monsters X g) = turn g"
  by (simp add: after_monsters_def refresh_turn ext_turn)

lemma rest_of_monsters_eq:
  "rest_of_monsters X g =
     (if is_dead (world (after_monsters X g)) \<or> \<not> playing (world (after_monsters X g))
      then Return (after_monsters X g) else Next (after_monsters X g))"
  by (simp add: rest_of_monsters_def after_monsters_def Let_def)

lemma every_ten_turns_skip:
  "\<not> (turn g smod 10 = 0 \<and> \<not> generate_level (world g)) \<Longrightarrow> every_ten_turns X k g = Next g"
  by (auto simp: every_ten_turns_def)

lemma every_ten_turns_fire:
  assumes "turn g smod 10 = 0 \<and> \<not> generate_level (world g)"
    and "outcome (every_ten_turns X k g) = Some g'"
  shows "\<exists>g2. outcome (process_world X k g) = Some g2 \<and> g' = refresh X g2
              \<and> every_ten_turns X k g =
                  (if is_dead (world g') \<or> \<not> playing (world g') then Return g' else Next g')"
  using assms
  by (cases "process_world X k g") (auto simp: every_ten_turns_def Let_def split: if_splits)

lemma every_ten_turns_turn:
  assumes "outcome (every_ten_turns X k g) = Some g'"
  shows "turn g' = turn g"
proof (cases "turn g smod 10 = 0 \<and> \<not> generate_level (world g)")
  case True
  from every_ten_turns_fire [OF True assms] process_world_turn [of X k g]
  show ?thesis by (auto simp: refresh_turn)
next
  case False
  from every_ten_turns_skip [OF False, of X k] assms show ?thesis by simp
qed

lemma give_count_turn:
  assumes "outcome (steps [give_energy k, count_turn] g) = Some g'"
  shows "steps [give_energy k, count_turn] g = Next g' \<and> turn g' = turn g + 1"
  using assms
  by (auto simp: give_energy_def count_turn_def split: sum.splits if_splits)

lemma world_round_unfold:
  "world_round X k g =
     (case rest_of_monsters X g of
        Next g1 \<Rightarrow>
          (case every_ten_turns X k g1 of
             Next g2 \<Rightarrow> steps [give_energy k, count_turn] g2
           | Return g2 \<Rightarrow> Return g2
           | Fault e \<Rightarrow> Fault e)
      | Return g1 \<Rightarrow> Return g1
      | Fault e \<Rightarrow> Fault e)"
  by (simp add: world_round_def split: flow.splits)

lemma world_round_Next:
  assumes "world_round X k g = Next g'"
  shows "turn g' = turn g + 1
       \<and> \<not> is_dead (world (after_monsters X g)) \<and> playing (world (after_monsters X g))
       \<and> (turn g smod 10 = 0 \<and> \<not> generate_level (world (after_monsters X g)) \<longrightarrow>
            (\<exists>g2. outcome (process_world X k (after_monsters X g)) = Some g2
                 \<and> steps [give_energy k, count_turn] (refresh X g2) = Next g'))
       \<and> (\<not> (turn g smod 10 = 0 \<and> \<not> generate_level (world (after_monsters X g))) \<longrightarrow>
            steps [give_energy k, count_turn] (after_monsters X g) = Next g')"
proof -
  let ?g1 = "after_monsters X g"
  from assms have alive: "\<not> is_dead (world ?g1) \<and> playing (world ?g1)"
    and r: "rest_of_monsters X g = Next ?g1"
    by (auto simp: world_round_unfold rest_of_monsters_eq split: if_splits)
  from assms r obtain g2 where e: "every_ten_turns X k ?g1 = Next g2"
    and s: "steps [give_energy k, count_turn] g2 = Next g'"
    by (auto simp: world_round_unfold split: flow.splits)
  from e have t2: "turn g2 = turn g"
    using every_ten_turns_turn [of X k ?g1 g2] by (simp add: after_monsters_turn)
  from s give_count_turn [of k g2 g'] t2 have clock: "turn g' = turn g + 1" by simp
  have fire: "\<exists>g3. outcome (process_world X k ?g1) = Some g3
                 \<and> steps [give_energy k, count_turn] (refresh X g3) = Next g'"
    if "turn g smod 10 = 0 \<and> \<not> generate_level (world ?g1)"
  proof -
    from that have "turn ?g1 smod 10 = 0 \<and> \<not> generate_level (world ?g1)"
      by (simp add: after_monsters_turn)
    from every_ten_turns_fire [OF this, of X k g2] e s show ?thesis by auto
  qed
  have skip: "steps [give_energy k, count_turn] ?g1 = Next g'"
    if "\<not> (turn g smod 10 = 0 \<and> \<not> generate_level (world ?g1))"
  proof -
    from that have "\<not> (turn ?g1 smod 10 = 0 \<and> \<not> generate_level (world ?g1))"
      by (simp add: after_monsters_turn)
    from every_ten_turns_skip [OF this, of X k] e s show ?thesis by simp
  qed
  from clock alive fire skip show ?thesis by blast
qed

lemma world_round_turn:
  assumes "outcome (world_round X k g) = Some g'"
  shows "(world_round X k g = Next g' \<and> turn g' = turn g + 1)
       \<or> (world_round X k g = Return g' \<and> turn g' = turn g)"
proof (cases "rest_of_monsters X g")
  case (Fault e) with assms show ?thesis by (simp add: world_round_unfold)
next
  case (Return g1)
  with assms show ?thesis
    by (auto simp: world_round_unfold rest_of_monsters_eq after_monsters_turn split: if_splits)
next
  case (Next g1)
  then have t1: "turn g1 = turn g"
    by (auto simp: rest_of_monsters_eq after_monsters_turn split: if_splits)
  show ?thesis
  proof (cases "every_ten_turns X k g1")
    case (Fault e) with Next assms show ?thesis by (simp add: world_round_unfold)
  next
    case (Return g2)
    with Next assms every_ten_turns_turn [of X k g1 g2] t1 show ?thesis
      by (simp add: world_round_unfold)
  next
    case n2: (Next g2)
    with every_ten_turns_turn [of X k g1 g2] t1 have t2: "turn g2 = turn g" by simp
    from Next n2 assms have "outcome (steps [give_energy k, count_turn] g2) = Some g'"
      by (simp add: world_round_unfold)
    from give_count_turn [OF this] Next n2 t2 show ?thesis
      by (simp add: world_round_unfold)
  qed
qed

lemma player_turn_turn: "outcome (player_turn X g) = Some g' \<Longrightarrow> turn g' = turn g"
  by (auto simp: player_turn_def Let_def ext_turn split: if_splits)

lemma player_turns_turn_all:
  assumes "player_turns (X :: 'x collab) k g = Some r"
  shows "\<forall>g'. outcome r = Some g' \<longrightarrow> turn g' = turn g"
proof (rule player_turns.raw_induct [OF _ assms])
  fix pt :: "'x collab \<Rightarrow> angband_constants \<Rightarrow> 'x game \<Rightarrow> 'x game flow option"
    and X :: "'x collab" and k and g :: "'x game" and r
  assume IH: "\<And>Y j h s. pt Y j h = Some s \<Longrightarrow> \<forall>g'. outcome s = Some g' \<longrightarrow> turn g' = turn h"
  let ?g1 = "ext X (Process_monsters (energy (world g) + 1)) (ext X (Event_signal EVENT_ANIMATE) g)"
  assume body: "(if move_energy k \<le> energy (world g) then
        (let g1 = ?g1
         in if is_dead (world g1) \<or> \<not> playing (world g1) \<or> generate_level (world g1)
            then Some (Next g1)
            else (case player_turn X g1 of
                    Fault e \<Rightarrow> Some (Fault e)
                  | Return g2 \<Rightarrow> Some (Return g2)
                  | Next g2 \<Rightarrow> pt X k g2))
      else Some (Next g)) = Some r"
  have t1: "turn ?g1 = turn g" by (simp add: ext_turn)
  show "\<forall>g'. outcome r = Some g' \<longrightarrow> turn g' = turn g"
  proof (intro allI impI)
    fix g' assume o: "outcome r = Some g'"
    show "turn g' = turn g"
    proof (cases "move_energy k \<le> energy (world g)")
      case False
      with body o show ?thesis by auto
    next
      case True
      show ?thesis
      proof (cases "is_dead (world ?g1) \<or> \<not> playing (world ?g1) \<or> generate_level (world ?g1)")
        case stop: True
        with True body o t1 show ?thesis by (auto simp: Let_def)
      next
        case go: False
        show ?thesis
        proof (cases "player_turn X ?g1")
          case (Fault e)
          with True go body o show ?thesis by (auto simp: Let_def)
        next
          case (Return g2)
          with True go body o player_turn_turn [of X ?g1 g2] t1 show ?thesis
            by (auto simp: Let_def)
        next
          case (Next g2)
          with player_turn_turn [of X ?g1 g2] t1 have t2: "turn g2 = turn g" by simp
          from Next True go body have "pt X k g2 = Some r"
            by (auto simp: Let_def)
          from IH [OF this] o t2 show ?thesis by simp
        qed
      qed
    qed
  qed
qed

lemma player_turns_turn:
  "player_turns X k g = Some r \<Longrightarrow> outcome r = Some g' \<Longrightarrow> turn g' = turn g"
  using player_turns_turn_all by blast

lemma on_new_level_turn:
  assumes "outcome (on_new_level X k g) = Some g'"
  shows "turn g' = turn g"
proof -
  have 1: "turn b = turn a" if "outcome (onl_announce X k a) = Some b" for a b
    using that play_ambient_sound_cases [of X k a]
    by (auto simp: onl_announce_def ext_turn split: if_splits flow.splits)
  have 2: "turn b = turn a" if "outcome (onl_track X a) = Some b" for a b
    using that
    by (auto simp: onl_track_def Let_def ext_turn refresh_player_def split: if_splits)
  have 3: "turn b = turn a" if "outcome (onl_settle X k a) = Some b" for a b
    using that
    by (auto simp: onl_settle_def Let_def ext_turn split: if_splits)
  show ?thesis
  proof (cases "onl_announce X k g")
    case (Fault e) with assms show ?thesis by (simp add: on_new_level_def)
  next
    case (Return a) with assms 1 [of g a] show ?thesis by (simp add: on_new_level_def)
  next
    case (Next a)
    with 1 [of g a] have ta: "turn a = turn g" by simp
    show ?thesis
    proof (cases "onl_track X a")
      case (Fault e) with Next assms show ?thesis by (simp add: on_new_level_def)
    next
      case (Return b) with Next assms 2 [of a b] ta show ?thesis by (simp add: on_new_level_def)
    next
      case n: (Next b)
      with 2 [of a b] ta have tb: "turn b = turn g" by simp
      from Next n assms have "outcome (onl_settle X k b) = Some g'"
        by (cases "onl_settle X k b") (simp_all add: on_new_level_def)
      from 3 [OF this] tb show ?thesis by simp
    qed
  qed
qed

lemma new_level_turn:
  assumes "outcome (new_level X k g) = Some g'"
  shows "turn g' = turn g"
proof (cases "generate_level (world g)")
  case False
  with assms show ?thesis by (simp add: new_level_def)
next
  case True
  let ?g1 = "if character_dungeon (world g) then on_leave_level X g else g"
  have t1: "turn (ext X Prepare_next_level ?g1) = turn g"
    by (simp add: on_leave_level_def refresh_player_def ext_turn)
  have d: "turn b = turn a" if "outcome (new_level_done X ar a) = Some b" for ar a b
    using that by (auto simp: new_level_done_def Let_def ext_turn split: if_splits)
  show ?thesis
  proof (cases "on_new_level X k (ext X Prepare_next_level ?g1)")
    case (Fault e)
    with True assms show ?thesis by (simp add: new_level_def Let_def)
  next
    case (Return a)
    with on_new_level_turn [of X k "ext X Prepare_next_level ?g1" a] t1
    have "turn a = turn g" by simp
    with Return True assms d show ?thesis by (auto simp: new_level_def Let_def)
  next
    case (Next a)
    with on_new_level_turn [of X k "ext X Prepare_next_level ?g1" a] t1
    have "turn a = turn g" by simp
    with Next True assms d show ?thesis by (auto simp: new_level_def Let_def)
  qed
qed

lemma loop_pass_turn:
  assumes "loop_pass X k g = Some r" and "outcome r = Some g'"
  shows "turn g' = turn g \<or> turn g' = turn g + 1"
proof -
  let ?g1 = "refresh X g"
  have t1: "turn ?g1 = turn g" by (rule refresh_turn)
  define w where "w = (if \<not> generate_level (world ?g1) then world_round X k ?g1 else Next ?g1)"
  have w: "turn h = turn g \<or> turn h = turn g + 1" if "outcome w = Some h" for h
    using that world_round_turn [of X k ?g1 h] t1 by (auto simp: w_def split: if_splits)
  have lp: "loop_pass X k g =
      (if is_dead (world ?g1) \<or> \<not> playing (world ?g1) then Some (Return ?g1)
       else (case w of
               Fault e \<Rightarrow> Some (Fault e)
             | Return g2 \<Rightarrow> Some (Return g2)
             | Next g2 \<Rightarrow>
                 (case new_level X k g2 of
                    Fault e \<Rightarrow> Some (Fault e)
                  | Return g3 \<Rightarrow> Some (Return g3)
                  | Next g3 \<Rightarrow> player_turns X k g3)))"
    by (simp add: loop_pass_def Let_def w_def)
  show ?thesis
  proof (cases "is_dead (world ?g1) \<or> \<not> playing (world ?g1)")
    case True
    with assms t1 show ?thesis by (auto simp: lp)
  next
    case False
    show ?thesis
    proof (cases w)
      case (Fault e)
      with False assms show ?thesis by (auto simp: lp)
    next
      case (Return g2)
      with False assms w [of g2] show ?thesis by (auto simp: lp)
    next
      case (Next g2)
      with w [of g2] have t2: "turn g2 = turn g \<or> turn g2 = turn g + 1" by simp
      show ?thesis
      proof (cases "new_level X k g2")
        case (Fault e)
        with Next False assms show ?thesis by (auto simp: lp)
      next
        case (Return g3)
        with new_level_turn [of X k g2 g3] t2 Next False assms show ?thesis
          by (auto simp: lp)
      next
        case n: (Next g3)
        with new_level_turn [of X k g2 g3] have t3: "turn g3 = turn g2" by simp
        from n Next False assms have "player_turns X k g3 = Some r"
          by (auto simp: lp)
        from player_turns_turn [OF this assms(2)] t3 t2 show ?thesis by simp
      qed
    qed
  qed
qed

lemma flow_Next_iff: "r = Next s \<longleftrightarrow> (\<not> left_early r \<and> outcome r = Some s)"
  by (cases r) (simp_all add: left_early_def)

text \<open>
  Claim C2. A round is the branch \<^verbatim>\<open>else if (!player->upkeep->generate_level)\<close> of a
  pass of the main loop; it is completed when it runs to its end, through \<^verbatim>\<open>turn++\<close>.
  A completed round advances the turn counter by exactly 1. In it the world tick
  \<^verbatim>\<open>process_world\<close> runs if and only if the turn counter is divisible by 10 and no new
  level is requested; it then runs on the state left by the remaining monsters
  (\<^verbatim>\<open>process_monsters(0)\<close> and \<^verbatim>\<open>reset_monsters()\<close>), and the player's energy and the
  turn counter are updated on the state it leaves; otherwise they are updated on the
  state left by the monsters. In any pass of the main loop the turn counter stays or
  advances by 1: it never skips and never goes back.
\<close>

theorem game_loop_clock:
  "(world_round X k g = Next g' \<longrightarrow>
      turn g' = turn g + 1
      \<and> \<not> is_dead (world (after_monsters X g)) \<and> playing (world (after_monsters X g))
      \<and> (turn g smod 10 = 0 \<and> \<not> generate_level (world (after_monsters X g)) \<longrightarrow>
           (\<exists>g2. outcome (process_world X k (after_monsters X g)) = Some g2
                \<and> steps [give_energy k, count_turn] (refresh X g2) = Next g'))
      \<and> (\<not> (turn g smod 10 = 0 \<and> \<not> generate_level (world (after_monsters X g))) \<longrightarrow>
           steps [give_energy k, count_turn] (after_monsters X g) = Next g'))
   \<and> (loop_pass X k g = Some r \<and> outcome r = Some g'' \<longrightarrow>
        turn g'' = turn g \<or> turn g'' = turn g + 1)"
  using world_round_Next [of X k g g'] loop_pass_turn [of X k g r g''] by blast

theorem game_loop_clock_witness:
  "turn sample_game = 10 \<and> turn sample_game smod 10 = 0
   \<and> \<not> generate_level (world (after_monsters plain sample_game))
   \<and> \<not> left_early (world_round plain sample_constants sample_game)
   \<and> map_option turn (outcome (world_round plain sample_constants sample_game)) = Some 11
   \<and> map_option (energy \<circ> world) (outcome (world_round plain sample_constants sample_game))
       = Some 10
   \<and> map_option turn (Option.bind (loop_pass plain sample_constants sample_game) outcome)
       = Some 11"
proof -
  have s: "turn sample_game = 10" "turn sample_game smod 10 = 0"
    "\<not> generate_level (world (after_monsters plain sample_game))"
    by (simp_all add: sample_game_def sample_world_def after_monsters_def refresh_def ext_def
        plain_simps plain_run_def signed_modulo_int_def)
  have e: "\<not> left_early (world_round plain sample_constants sample_game)"
    "outcome (world_round plain sample_constants sample_game) \<noteq> None"
    "map_option (energy \<circ> world) (outcome (world_round plain sample_constants sample_game))
       = Some 10"
    "map_option (generate_level \<circ> world)
       (outcome (world_round plain sample_constants sample_game)) = Some False"
    by code_simp+
  then obtain g' where g': "world_round plain sample_constants sample_game = Next g'"
    by (auto simp: flow_Next_iff)
  with e have w: "energy (world g') = 10" "\<not> generate_level (world g')" by simp_all
  have r: "refresh plain sample_game = sample_game"
    by (simp add: refresh_def ext_def plain_simps plain_run_def)
  have a: "\<not> is_dead (world sample_game)" "playing (world sample_game)"
    "\<not> generate_level (world sample_game)"
    by (simp_all add: sample_game_def sample_world_def)
  have p: "player_turns plain sample_constants g' = Some (Next g')"
    using w by (subst player_turns.simps) (simp add: sample_constants_def)
  have l: "loop_pass plain sample_constants sample_game = Some (Next g')"
    using g' w a p by (simp add: loop_pass_def r new_level_def)
  from game_loop_clock [of plain sample_constants sample_game g' "Next g'" g'] g' l
  have "turn g' = turn sample_game + 1" by simp
  with g' l e s show ?thesis by simp
qed

section \<open>Properties of the scent update\<close>

lemma set_inner_cells: "set (inner_cells c) = {g. interior c g}"
proof -
  have "g \<in> set (inner_cells c) \<longleftrightarrow> interior c g" for g
  proof (cases g)
    case (Loc a b)
    have "Loc a b \<in> set (inner_cells c)
          \<longleftrightarrow> (\<exists>y \<in> {1..height c - 2}. \<exists>x \<in> {1..width c - 2}. Loc a b = Loc x y)"
      by (simp add: inner_cells_def image_iff)
    also have "\<dots> \<longleftrightarrow> interior c (Loc a b)"
      by (auto simp: interior_def)
    finally show ?thesis using Loc by simp
  qed
  then show ?thesis by blast
qed

lemma distinct_concat_map:
  assumes "\<And>y. distinct (f y)" and "\<And>y z. y \<noteq> z \<Longrightarrow> set (f y) \<inter> set (f z) = {}"
  shows "distinct ys \<Longrightarrow> distinct (concat (map f ys))"
proof (induction ys)
  case Nil
  show ?case by simp
next
  case (Cons y ys)
  have "set (f y) \<inter> set (f z) = {}" if "z \<in> set ys" for z
    using that Cons.prems assms(2) [of y z] by auto
  with Cons assms(1) show ?case by auto
qed

lemma distinct_inner_cells: "distinct (inner_cells c)"
  unfolding inner_cells_def
  by (rule distinct_concat_map) (auto simp: distinct_map inj_on_def)

lemma fold_cells:
  assumes "\<And>g gr. f g gr = gr(g := h (gr g))"
  shows "distinct gs \<Longrightarrow> fold f gs gr x = (if x \<in> set gs then h (gr x) else gr x)"
proof (induction gs arbitrary: gr)
  case Nil
  show ?case by simp
next
  case (Cons a gs)
  then show ?case by (auto simp: assms)
qed

lemma age_cell_upd: "age_cell g gr = gr(g := (if gr g \<noteq> 0 then gr g + 1 else gr g))"
  by (auto simp: age_cell_def word_gt_0)

lemma age_scent_cell:
  "age_scent c g = (if interior c g \<and> scent c g \<noteq> 0 then scent c g + 1 else scent c g)"
  unfolding age_scent_def
  using fold_cells [where f = age_cell and h = "\<lambda>v. if v \<noteq> 0 then v + 1 else v",
      OF age_cell_upd distinct_inner_cells, of c "scent c" g]
  by (simp add: set_inner_cells)

lemma silence_cell: "silence c g = (if interior c g then 0 else noise c g)"
  unfolding silence_def
  using fold_cells [where f = "\<lambda>g gr. gr(g := 0)" and h = "\<lambda>v. 0",
      OF _ distinct_inner_cells, of c "noise c" g]
  by (simp add: set_inner_cells)

lemma cell_next:
  fixes v :: "16 word"
  assumes "v \<noteq> 65535"
  shows "unat (v + 1) = unat v + 1"
proof -
  have "v + 1 \<noteq> 0"
  proof
    assume "v + 1 = 0"
    then have "v = - 1" by (rule eq_neg_iff_add_eq_0 [THEN iffD2])
    with assms show False by simp
  qed
  then have "1 + v \<noteq> 0" by (simp add: add.commute)
  from unatSuc [OF this] show ?thesis by (simp add: add.commute)
qed

lemma cell_value: "unat (v :: 16 word) = n \<Longrightarrow> v = word_of_nat n"
  by auto

lemma cell_fits: "lvl < 65536 \<Longrightarrow> unat (word_of_nat lvl :: 16 word) = lvl"
  by (simp add: unat_of_nat)

text \<open>
  Claim C9, amended. When \<^verbatim>\<open>update_scent\<close> runs with the track-covering counter not
  zero, the result is the level with the aged scent map and nothing else changed: no
  fresh scent is laid. A cell that held 0 is left at 0. A cell that the ageing loop
  visits (every cell but those of the outermost rows and columns) and that held scent
  below 65535 holds exactly 1 more than before; one that held 65535, the greatest
  number of a cell, holds 0. A cell that the ageing loop does not visit keeps its
  value, scent or not.
\<close>

theorem update_scent_covertracks:
  assumes "covertracks \<noteq> 0"
  shows "update_scent c pgrid covertracks = c\<lparr>scent := age_scent c\<rparr>
       \<and> (\<forall>g. scent c g = 0 \<longrightarrow> scent (update_scent c pgrid covertracks) g = 0)
       \<and> (\<forall>g. interior c g \<longrightarrow> scent c g \<noteq> 0 \<longrightarrow> scent c g \<noteq> 65535 \<longrightarrow>
             unat (scent (update_scent c pgrid covertracks) g) = unat (scent c g) + 1)
       \<and> (\<forall>g. interior c g \<longrightarrow> scent c g = 65535 \<longrightarrow>
             scent (update_scent c pgrid covertracks) g = 0)
       \<and> (\<forall>g. \<not> interior c g \<longrightarrow> scent (update_scent c pgrid covertracks) g = scent c g)"
proof -
  have u: "update_scent c pgrid covertracks = c\<lparr>scent := age_scent c\<rparr>"
    using assms by (simp add: update_scent_def Let_def)
  show ?thesis
    unfolding u by (simp add: age_scent_cell cell_next)
qed

lemma fold_scent_adjacent:
  "fold (scent_adjacent c gr ky kx cell ns) ds acc =
     (acc \<or> (\<exists>d \<in> set ds. square_in_bounds c (loc_sum cell d)
                \<and> ((kx = 2 \<and> ky = 2) \<or> uint (gr (loc_sum cell d)) = ns - 1)))"
  by (induction ds arbitrary: acc) (auto simp: scent_adjacent_def Let_def)

lemma lays_iff:
  "lays c p gr k \<longleftrightarrow>
     square_in_bounds c (kernel_cell p k) \<and> \<not> square_isnoscent c (kernel_cell p k)
     \<and> (\<exists>d \<in> set ddgrid_ddd. square_in_bounds c (loc_sum (kernel_cell p k) d)
           \<and> ((snd k = 2 \<and> fst k = 2) \<or> uint (gr (loc_sum (kernel_cell p k) d)) = strength k - 1))"
  by (simp add: lays_def fold_scent_adjacent)

lemma lay_scent_eq:
  "lay_scent c p k gr =
     (if lays c p gr k then gr(kernel_cell p k := word_of_int (strength k)) else gr)"
  by (simp add: lay_scent_def lays_def kernel_cell_def strength_def Let_def)

lemma kernel_cell_centre: "fst k = 2 \<Longrightarrow> snd k = 2 \<Longrightarrow> kernel_cell p k = p"
  by (cases p) (simp add: kernel_cell_def)

lemma lays_spec: "lays c p gr k \<Longrightarrow> spec_scent_test c p gr k"
  by (auto simp: lays_iff spec_scent_test_def kernel_cell_centre)

lemma kernel_cell_inj: "kernel_cell p k = kernel_cell p k' \<Longrightarrow> k = k'"
  by (cases k, cases k') (simp add: kernel_cell_def)

lemma kernel_list:
  "kernel = [(0,0),(0,1),(0,2),(0,3),(0,4),(1,0),(1,1),(1,2),(1,3),(1,4),(2,0),(2,1),(2,2),
             (2,3),(2,4),(3,0),(3,1),(3,2),(3,3),(3,4),(4,0),(4,1),(4,2),(4,3),(4,4)]"
  by (simp add: kernel_def upt_rec)

lemma distinct_kernel: "distinct kernel"
  by (simp add: kernel_list)

lemma strength_kernel:
  "k \<in> set kernel \<Longrightarrow> strength k = max \<bar>int (fst k) - 2\<bar> \<bar>int (snd k) - 2\<bar>"
  by (auto simp: kernel_list strength_def scent_strength_def)

lemma fold_lay_other:
  "g \<notin> kernel_cell p ` set ks \<Longrightarrow> fold (lay_scent c p) ks gr g = gr g"
  by (induction ks arbitrary: gr) (auto simp: lay_scent_eq)

lemma lay_pass_cell:
  assumes "kernel = pre @ k # post"
  shows "fold (lay_scent c p) kernel gr (kernel_cell p k)
           = (if lays c p (fold (lay_scent c p) pre gr) k then word_of_int (strength k)
              else gr (kernel_cell p k))"
proof -
  have "distinct (pre @ k # post)" using distinct_kernel unfolding assms .
  then have d: "k \<notin> set pre" "k \<notin> set post" by auto
  then have 1: "kernel_cell p k \<notin> kernel_cell p ` set pre" "kernel_cell p k \<notin> kernel_cell p ` set post"
    using kernel_cell_inj by blast+
  have "fold (lay_scent c p) kernel gr (kernel_cell p k)
        = lay_scent c p k (fold (lay_scent c p) pre gr) (kernel_cell p k)"
    by (simp add: assms fold_lay_other [OF 1(2)])
  also have "\<dots> = (if lays c p (fold (lay_scent c p) pre gr) k then word_of_int (strength k)
              else gr (kernel_cell p k))"
    by (simp add: lay_scent_eq fold_lay_other [OF 1(1)])
  finally show ?thesis .
qed

text \<open>
  Claim C4. In the lay-down pass the kernel positions are taken row by row; let
  \<open>k\<close> be one of them and \<open>pre\<close> the positions before it, so that
  \<open>fold (lay_scent c p) pre (age_scent c)\<close> is the scent map when \<open>k\<close> is reached,
  with the cells written earlier in the pass. If the cell under \<open>k\<close> is written, then
  it is in bounds, its terrain allows scent, and it is the player's own cell or a
  neighbour in bounds holds exactly one less than its kernel value; the cell then holds
  its kernel value after the update. If that test fails, the cell is not written and
  keeps its aged value. The kernel value is the greater of the row and column distances
  to the centre: 0 at the centre, 2 at the edges and corners.
\<close>

theorem lay_scent_kernel:
  assumes "covertracks = 0" and "kernel = pre @ k # post"
  shows "(lays c p (fold (lay_scent c p) pre (age_scent c)) k \<longrightarrow>
            spec_scent_test c p (fold (lay_scent c p) pre (age_scent c)) k
            \<and> scent (update_scent c p covertracks) (kernel_cell p k) = word_of_int (strength k))
       \<and> (\<not> spec_scent_test c p (fold (lay_scent c p) pre (age_scent c)) k \<longrightarrow>
            \<not> lays c p (fold (lay_scent c p) pre (age_scent c)) k
            \<and> scent (update_scent c p covertracks) (kernel_cell p k)
                = age_scent c (kernel_cell p k))
       \<and> fold (lay_scent c p) (pre @ [k]) (age_scent c)
           = (if lays c p (fold (lay_scent c p) pre (age_scent c)) k
              then (fold (lay_scent c p) pre (age_scent c))
                     (kernel_cell p k := word_of_int (strength k))
              else fold (lay_scent c p) pre (age_scent c))
       \<and> strength k = max \<bar>int (fst k) - 2\<bar> \<bar>int (snd k) - 2\<bar>"
proof -
  have u: "scent (update_scent c p covertracks) = fold (lay_scent c p) kernel (age_scent c)"
    using assms(1) by (simp add: update_scent_def Let_def)
  have k: "k \<in> set kernel" unfolding assms(2) by simp
  show ?thesis
    using lay_pass_cell [OF assms(2), of c p "age_scent c"] lays_spec [of c p _ k]
      strength_kernel [OF k]
    by (auto simp: u lay_scent_eq)
qed

lemma scent_path_adjacent:
  "d \<in> set ddgrid_ddd \<Longrightarrow> square_in_bounds c (loc_sum p d) \<Longrightarrow> \<not> square_isnoscent c (loc_sum p d)
   \<Longrightarrow> scent_path c p (loc_sum p d)"
  by (rule scent_path.step [OF scent_path.start])

lemma kernel_cases:
  "k \<in> set kernel \<Longrightarrow>
   k \<in> {(0,0),(0,1),(0,2),(0,3),(0,4),(1,0),(1,1),(1,2),(1,3),(1,4),(2,0),(2,1),(2,2),
             (2,3),(2,4),(3,0),(3,1),(3,2),(3,3),(3,4),(4,0),(4,1),(4,2),(4,3),(4,4)}"
  by (simp add: kernel_list)

lemma ring1_cases:
  "k \<in> set kernel \<Longrightarrow> strength k = 1 \<Longrightarrow>
     k \<in> {(1,1),(1,2),(1,3),(2,1),(2,3),(3,1),(3,2),(3,3)}"
  by (drule kernel_cases, elim insertE emptyE) (simp_all add: strength_def scent_strength_def)

lemma strength_range: "k \<in> set kernel \<Longrightarrow> strength k = 0 \<or> strength k = 1 \<or> strength k = 2"
  by (drule kernel_cases, elim insertE emptyE) (simp_all add: strength_def scent_strength_def)

lemma neighbour_back:
  assumes "d \<in> set ddgrid_ddd"
  shows "\<exists>e \<in> set ddgrid_ddd. loc_sum (loc_sum g d) e = g"
proof -
  obtain x y where g: "g = Loc x y" by (cases g)
  from assms have "d \<in> {Loc 0 1, Loc 0 (-1), Loc 1 0, Loc (-1) 0,
                 Loc 1 1, Loc (-1) 1, Loc 1 (-1), Loc (-1) (-1)}"
    by (simp add: ddgrid_ddd_def)
  then have "g \<in> loc_sum (loc_sum g d) ` set ddgrid_ddd"
    by (elim insertE emptyE) (simp_all add: g loc_sum_def ddgrid_ddd_def)
  then obtain e where "e \<in> set ddgrid_ddd" "g = loc_sum (loc_sum g d) e" by blast
  then show ?thesis by (intro bexI [of _ e]) simp_all
qed

lemma ring1_adjacent:
  assumes "k \<in> set kernel" and "strength k = 1"
  shows "\<exists>d \<in> set ddgrid_ddd. kernel_cell p k = loc_sum p d"
proof -
  obtain x y where p: "p = Loc x y" by (cases p)
  have "kernel_cell p k \<in> loc_sum p ` set ddgrid_ddd"
    using ring1_cases [OF assms]
    by (elim insertE emptyE) (simp_all add: p kernel_cell_def ddgrid_ddd_def loc_sum_def)
  then show ?thesis by blast
qed

lemma cell_is_1: "uint (v :: 16 word) = 1 \<Longrightarrow> v = 1"
  by (metis uint_1 word_uint_eq_iff)

lemma lays_linked:
  assumes "fresh_linked c p gr" and "k \<in> set kernel" and "lays c p gr k"
  shows "scent_path c p (kernel_cell p k) \<or> stale_neighbour c (kernel_cell p k)"
proof -
  from assms(3) have b: "square_in_bounds c (kernel_cell p k)"
      "\<not> square_isnoscent c (kernel_cell p k)"
    and "\<exists>d \<in> set ddgrid_ddd. square_in_bounds c (loc_sum (kernel_cell p k) d)
           \<and> ((snd k = 2 \<and> fst k = 2) \<or> uint (gr (loc_sum (kernel_cell p k) d)) = strength k - 1)"
    by (simp_all add: lays_iff)
  then obtain d where d: "d \<in> set ddgrid_ddd" "square_in_bounds c (loc_sum (kernel_cell p k) d)"
    "(snd k = 2 \<and> fst k = 2) \<or> uint (gr (loc_sum (kernel_cell p k) d)) = strength k - 1"
    by blast
  have s: "strength k = 0 \<or> strength k = 1 \<or> strength k = 2"
    using assms(2) by (rule strength_range)
  show ?thesis
  proof (cases "snd k = 2 \<and> fst k = 2")
    case True
    then show ?thesis by (simp add: kernel_cell_centre scent_path.start)
  next
    case False
    with d(3) have v: "uint (gr (loc_sum (kernel_cell p k) d)) = strength k - 1" by simp
    have "0 \<le> uint (gr (loc_sum (kernel_cell p k) d))" by simp
    with v have "strength k \<noteq> 0" by auto
    with s consider "strength k = 1" | "strength k = 2" by blast
    then show ?thesis
    proof cases
      case 1
      from ring1_adjacent [OF assms(2) 1, of p] obtain e where
        "e \<in> set ddgrid_ddd" "kernel_cell p k = loc_sum p e" by blast
      with b scent_path_adjacent [of e c p] show ?thesis by simp
    next
      case 2
      with v have "gr (loc_sum (kernel_cell p k) d) = 1" by (simp add: cell_is_1)
      with assms(1) d(2) consider "scent_path c p (loc_sum (kernel_cell p k) d)"
        | "boundary c (loc_sum (kernel_cell p k) d)" "scent c (loc_sum (kernel_cell p k) d) = 1"
        unfolding fresh_linked_def by blast
      then show ?thesis
      proof cases
        case 1
        from neighbour_back [OF d(1), of "kernel_cell p k"] obtain e where
          e: "e \<in> set ddgrid_ddd" "loc_sum (loc_sum (kernel_cell p k) d) e = kernel_cell p k"
          by blast
        from scent_path.step [OF 1 e(1)] b e(2) show ?thesis by simp
      next
        case 2
        with d(1) show ?thesis unfolding stale_neighbour_def by blast
      qed
    qed
  qed
qed

lemma lay_scent_linked:
  assumes "fresh_linked c p gr" and "k \<in> set kernel"
  shows "fresh_linked c p (lay_scent c p k gr)"
proof (cases "lays c p gr k")
  case False
  with assms(1) show ?thesis by (simp add: lay_scent_eq)
next
  case True
  then have b: "square_in_bounds c (kernel_cell p k)" "\<not> square_isnoscent c (kernel_cell p k)"
    by (simp_all add: lays_iff)
  have "scent_path c p (kernel_cell p k)" if "(word_of_int (strength k) :: 16 word) = 1"
  proof -
    from that strength_range [OF assms(2)] have "strength k = 1" by auto
    from ring1_adjacent [OF assms(2) this, of p] obtain e where
      "e \<in> set ddgrid_ddd" "kernel_cell p k = loc_sum p e" by blast
    with b scent_path_adjacent [of e c p] show ?thesis by simp
  qed
  with assms(1) True show ?thesis
    by (auto simp: lay_scent_eq fresh_linked_def)
qed

lemma fold_lay_linked:
  "fresh_linked c p gr \<Longrightarrow> set ks \<subseteq> set kernel \<Longrightarrow> fresh_linked c p (fold (lay_scent c p) ks gr)"
  by (induction ks arbitrary: gr) (auto simp: lay_scent_linked)

lemma aged_linked: "fresh_linked c p (age_scent c)"
  unfolding fresh_linked_def
proof (intro allI impI)
  fix g assume b: "square_in_bounds c g" and a: "age_scent c g = 1"
  have "\<not> interior c g"
  proof
    assume "interior c g"
    with a show False by (auto simp: age_scent_cell split: if_splits)
  qed
  with a b have "boundary c g \<and> scent c g = 1"
    by (simp add: boundary_def age_scent_cell)
  then show "scent_path c p g \<or> (boundary c g \<and> scent c g = 1)" ..
qed

lemma aged_least:
  assumes "interior c g" and "age_scent c g \<noteq> 0"
  shows "2 \<le> age_scent c g"
proof -
  from assms have s: "scent c g \<noteq> 0" and a: "age_scent c g = scent c g + 1"
    by (auto simp: age_scent_cell split: if_splits)
  from assms(2) a have "scent c g \<noteq> 65535" by auto
  from cell_next [OF this] a have "unat (age_scent c g) = unat (scent c g) + 1" by simp
  moreover from s have "0 < unat (scent c g)" by (simp add: unat_gt_0)
  ultimately have "2 \<le> unat (age_scent c g)" by simp
  then show ?thesis by (simp add: word_le_nat_alt)
qed

text \<open>
  Claim C5, amended. After the two phases every cell either holds its aged value or is
  a kernel cell in bounds, with terrain that allows scent, that holds its freshly
  written kernel value. Such a cell is connected to the player through cells in bounds
  whose terrain allows scent, or it has a stale neighbour: a boundary cell that held
  scent 1 before the update and was not aged. If such a cell is one that the ageing
  loop visits and its aged value is not 0, the value after is the minimum of the aged
  and the fresh value. The fresh value replaces the aged value 0 of a cell without
  scent, and it replaces the value of a boundary cell whatever that is.
\<close>

theorem update_scent_fresh:
  assumes "covertracks = 0"
  shows "scent (update_scent c p covertracks) g = age_scent c g
       \<or> (\<exists>k \<in> set kernel. g = kernel_cell p k
            \<and> square_in_bounds c g \<and> \<not> square_isnoscent c g
            \<and> scent (update_scent c p covertracks) g = word_of_int (strength k)
            \<and> (scent_path c p g \<or> stale_neighbour c g)
            \<and> (interior c g \<longrightarrow> age_scent c g \<noteq> 0 \<longrightarrow>
                 scent (update_scent c p covertracks) g
                   = min (age_scent c g) (word_of_int (strength k))))"
proof -
  have u: "scent (update_scent c p covertracks) = fold (lay_scent c p) kernel (age_scent c)"
    using assms(1) by (simp add: update_scent_def Let_def)
  show ?thesis
  proof (cases "g \<in> kernel_cell p ` set kernel")
    case False
    then show ?thesis by (simp add: u fold_lay_other)
  next
    case True
    then obtain k where k: "k \<in> set kernel" "g = kernel_cell p k" by blast
    then obtain pre post where sp: "kernel = pre @ k # post"
      by (auto dest: split_list)
    let ?before = "fold (lay_scent c p) pre (age_scent c)"
    have cell: "scent (update_scent c p covertracks) g
                  = (if lays c p ?before k then word_of_int (strength k) else age_scent c g)"
      using lay_pass_cell [OF sp, of c p "age_scent c"] by (simp add: u k(2))
    show ?thesis
    proof (cases "lays c p ?before k")
      case False
      with cell show ?thesis by simp
    next
      case True
      have "set pre \<subseteq> set kernel" unfolding sp by auto
      from fold_lay_linked [OF aged_linked this]
      have "fresh_linked c p ?before" .
      from lays_linked [OF this k(1) True]
      have path: "scent_path c p g \<or> stale_neighbour c g" by (simp add: k(2))
      from True have b: "square_in_bounds c g" "\<not> square_isnoscent c g"
        by (simp_all add: lays_iff k(2))
      have s: "(word_of_int (strength k) :: 16 word) \<le> 2"
        using strength_range [OF k(1)] by auto
      have "word_of_int (strength k) \<le> age_scent c g" if "interior c g" "age_scent c g \<noteq> 0"
        using aged_least [OF that] s by simp
      with True cell path k b show ?thesis by (auto simp: min_def)
    qed
  qed
qed

theorem update_scent_covertracks_witness:
  "(4 :: int) \<noteq> 0
   \<and> interior scented_cave (Loc 3 3) \<and> scent scented_cave (Loc 3 3) = 3
   \<and> unat (scent (update_scent scented_cave (Loc 2 2) 4) (Loc 3 3)) = 4
   \<and> scent scented_cave (Loc 2 2) = 0
   \<and> scent (update_scent scented_cave (Loc 2 2) 4) (Loc 2 2) = 0
   \<and> interior worn_cave (Loc 3 3) \<and> scent worn_cave (Loc 3 3) = 65535
   \<and> scent (update_scent worn_cave (Loc 2 2) 4) (Loc 3 3) = 0
   \<and> \<not> interior scented_cave (Loc 0 0)
   \<and> scent (update_scent scented_cave (Loc 2 2) 4) (Loc 0 0) = scent scented_cave (Loc 0 0)"
proof -
  have b: "interior scented_cave (Loc 3 3)" "scent scented_cave (Loc 3 3) = 3"
    "scent scented_cave (Loc 2 2) = 0" "\<not> interior scented_cave (Loc 0 0)"
    "interior worn_cave (Loc 3 3)" "scent worn_cave (Loc 3 3) = 65535"
    by (simp_all add: scented_cave_def worn_cave_def sample_cave_def interior_def)
  have n: "(4 :: int) \<noteq> 0" by simp
  from update_scent_covertracks [OF n, of scented_cave "Loc 2 2"] have
    s: "\<forall>g. scent scented_cave g = 0 \<longrightarrow> scent (update_scent scented_cave (Loc 2 2) 4) g = 0"
      "\<forall>g. interior scented_cave g \<longrightarrow> scent scented_cave g \<noteq> 0 \<longrightarrow> scent scented_cave g \<noteq> 65535 \<longrightarrow>
             unat (scent (update_scent scented_cave (Loc 2 2) 4) g) = unat (scent scented_cave g) + 1"
      "\<forall>g. \<not> interior scented_cave g \<longrightarrow>
             scent (update_scent scented_cave (Loc 2 2) 4) g = scent scented_cave g"
    by blast+
  from update_scent_covertracks [OF n, of worn_cave "Loc 2 2"] have
    w: "\<forall>g. interior worn_cave g \<longrightarrow> scent worn_cave g = 65535 \<longrightarrow>
             scent (update_scent worn_cave (Loc 2 2) 4) g = 0"
    by blast
  from s(2) [rule_format, of "Loc 3 3"] b(1,2)
  have 1: "unat (scent (update_scent scented_cave (Loc 2 2) 4) (Loc 3 3)) = 4" by simp
  from s(1) [rule_format, OF b(3)]
  have 2: "scent (update_scent scented_cave (Loc 2 2) 4) (Loc 2 2) = 0" .
  from s(3) [rule_format, OF b(4)]
  have 3: "scent (update_scent scented_cave (Loc 2 2) 4) (Loc 0 0) = scent scented_cave (Loc 0 0)" .
  from w [rule_format, OF b(5,6)]
  have 4: "scent (update_scent worn_cave (Loc 2 2) 4) (Loc 3 3) = 0" .
  from b n 1 2 3 4 show ?thesis by simp
qed

text \<open>
  The claim as it stands fails for a cell of the outermost rows and columns that holds
  scent, and for a cell that holds the greatest age. On the level without blocking
  terrain, an update with the player next to the corner lays scent 1 on the corner
  cell, which is in bounds; an update under covered tracks then leaves the corner cell
  at 1: it is neither left at 0 nor incremented. On the sample level, the cell of the
  room that holds 65535 holds 0 after an update under covered tracks.
\<close>

theorem update_scent_covertracks_counterexample:
  "square_in_bounds open_cave (Loc 0 0)
   \<and> scent (update_scent open_cave (Loc 1 1) 0) (Loc 0 0) = 1
   \<and> scent (update_scent (update_scent open_cave (Loc 1 1) 0) (Loc 1 1) 4) (Loc 0 0) = 1
   \<and> square_in_bounds worn_cave (Loc 3 3)
   \<and> scent worn_cave (Loc 3 3) = 65535
   \<and> scent (update_scent worn_cave (Loc 2 2) 4) (Loc 3 3) = 0"
  by code_simp

theorem lay_scent_kernel_witness:
  "lays sample_cave (Loc 2 2)
     (fold (lay_scent sample_cave (Loc 2 2))
        [(0,0),(0,1),(0,2),(0,3),(0,4),(1,0),(1,1),(1,2),(1,3),(1,4),(2,0),(2,1),(2,2)]
        (age_scent sample_cave)) (2,3)
   \<and> kernel_cell (Loc 2 2) (2,3) = Loc 3 2
   \<and> spec_scent_test sample_cave (Loc 2 2)
       (fold (lay_scent sample_cave (Loc 2 2))
          [(0,0),(0,1),(0,2),(0,3),(0,4),(1,0),(1,1),(1,2),(1,3),(1,4),(2,0),(2,1),(2,2)]
          (age_scent sample_cave)) (2,3)
   \<and> scent (update_scent sample_cave (Loc 2 2) 0) (Loc 3 2) = 1
   \<and> \<not> lays sample_cave (Loc 2 2) (fold (lay_scent sample_cave (Loc 2 2)) [] (age_scent sample_cave))
         (0,0)
   \<and> scent (update_scent sample_cave (Loc 2 2) 0) (kernel_cell (Loc 2 2) (0,0))
       = age_scent sample_cave (kernel_cell (Loc 2 2) (0,0))"
proof -
  let ?pre = "[(0,0),(0,1),(0,2),(0,3),(0,4),(1,0),(1,1),(1,2),(1,3),(1,4),(2,0),(2,1),(2,2)]
                :: (nat \<times> nat) list"
  have k: "kernel = ?pre @ (2,3) # [(2,4),(3,0),(3,1),(3,2),(3,3),(3,4),(4,0),(4,1),(4,2),(4,3),(4,4)]"
    by (simp add: kernel_list)
  have k0: "kernel = [] @ (0,0) # [(0,1),(0,2),(0,3),(0,4),(1,0),(1,1),(1,2),(1,3),(1,4),(2,0),
      (2,1),(2,2),(2,3),(2,4),(3,0),(3,1),(3,2),(3,3),(3,4),(4,0),(4,1),(4,2),(4,3),(4,4)]"
    by (simp add: kernel_list)
  have l: "lays sample_cave (Loc 2 2) (fold (lay_scent sample_cave (Loc 2 2)) ?pre
             (age_scent sample_cave)) (2,3)"
    by code_simp
  have c: "kernel_cell (Loc 2 2) (2,3) = Loc 3 2" "strength (2,3) = 1"
    by (simp_all add: kernel_cell_def strength_def scent_strength_def)
  have n: "\<not> spec_scent_test sample_cave (Loc 2 2)
            (fold (lay_scent sample_cave (Loc 2 2)) [] (age_scent sample_cave)) (0,0)"
    by (simp add: spec_scent_test_def kernel_cell_def sample_cave_def)
  from lay_scent_kernel [OF refl k, of sample_cave "Loc 2 2"] l c
  have 1: "spec_scent_test sample_cave (Loc 2 2)
            (fold (lay_scent sample_cave (Loc 2 2)) ?pre (age_scent sample_cave)) (2,3)"
    "scent (update_scent sample_cave (Loc 2 2) 0) (Loc 3 2) = 1"
    by simp_all
  from lay_scent_kernel [OF refl k0, of sample_cave "Loc 2 2"] n
  have 2: "\<not> lays sample_cave (Loc 2 2) (fold (lay_scent sample_cave (Loc 2 2)) []
              (age_scent sample_cave)) (0,0)"
    "scent (update_scent sample_cave (Loc 2 2) 0) (kernel_cell (Loc 2 2) (0,0))
       = age_scent sample_cave (kernel_cell (Loc 2 2) (0,0))"
    by blast+
  from l c 1 2 show ?thesis by simp
qed

theorem update_scent_fresh_witness:
  "interior scented_cave (Loc 3 3)
   \<and> age_scent scented_cave (Loc 3 3) = 4
   \<and> scent (update_scent scented_cave (Loc 2 2) 0) (Loc 3 3) = 1
   \<and> scent (update_scent scented_cave (Loc 2 2) 0) (Loc 3 3)
       = min (age_scent scented_cave (Loc 3 3)) 1
   \<and> \<not> stale_neighbour scented_cave (Loc 3 3)
   \<and> scent_path scented_cave (Loc 2 2) (Loc 3 3)"
proof -
  have e: "age_scent scented_cave (Loc 3 3) = 4"
    "scent (update_scent scented_cave (Loc 2 2) 0) (Loc 3 3) = 1"
    by code_simp+
  have i: "interior scented_cave (Loc 3 3)"
    by (simp add: scented_cave_def sample_cave_def interior_def)
  have n: "\<not> stale_neighbour scented_cave (Loc 3 3)"
    by (simp add: stale_neighbour_def scented_cave_def ddgrid_ddd_def loc_sum_def)
  from update_scent_fresh [OF refl, of scented_cave "Loc 2 2" "Loc 3 3"] e n
  have "scent_path scented_cave (Loc 2 2) (Loc 3 3)" by auto
  with e i n show ?thesis by simp
qed

lemma walled_path:
  assumes "scent_path c (Loc 3 1) g" and "\<And>h. loc_x h = 2 \<Longrightarrow> square_isnoscent c h"
  shows "3 \<le> loc_x g"
  using assms(1)
proof (induction rule: scent_path.induct)
  case start
  show ?case by simp
next
  case (step g d)
  from step.hyps(2) have "- 1 \<le> loc_x d" by (auto simp: ddgrid_ddd_def)
  with step.IH have "2 \<le> loc_x (loc_sum g d)" by (simp add: loc_sum_def)
  moreover from step.hyps(4) assms(2) have "loc_x (loc_sum g d) \<noteq> 2" by blast
  ultimately show ?case by simp
qed

text \<open>
  The claim as it stands fails on the level whose middle column blocks scent. An
  update with the player west of the wall lays scent 1 on the cell \<open>(1, 0)\<close> of the
  top row. The next update, with the player east of the wall, does not age that cell,
  since it is in the top row, and writes the fresh value 2 to it, because its
  neighbour in the corner still holds 1: the stored age of a cell that held scent has
  increased, the value after is not the minimum of the aged and the fresh value, and the
  cell has received a fresh value although the wall separates it from the player.
\<close>

theorem update_scent_min_counterexample:
  "square_in_bounds walled_cave (Loc 1 0)
   \<and> scent (update_scent walled_cave (Loc 1 1) 0) (Loc 1 0) = 1
   \<and> age_scent (update_scent walled_cave (Loc 1 1) 0) (Loc 1 0) = 1
   \<and> scent (update_scent (update_scent walled_cave (Loc 1 1) 0) (Loc 3 1) 0) (Loc 1 0) = 2
   \<and> scent (update_scent (update_scent walled_cave (Loc 1 1) 0) (Loc 3 1) 0) (Loc 1 0)
       \<noteq> min (age_scent (update_scent walled_cave (Loc 1 1) 0) (Loc 1 0)) 2
   \<and> \<not> scent_path (update_scent walled_cave (Loc 1 1) 0) (Loc 3 1) (Loc 1 0)"
proof -
  have "square_in_bounds walled_cave (Loc 1 0)
   \<and> scent (update_scent walled_cave (Loc 1 1) 0) (Loc 1 0) = 1
   \<and> age_scent (update_scent walled_cave (Loc 1 1) 0) (Loc 1 0) = 1
   \<and> scent (update_scent (update_scent walled_cave (Loc 1 1) 0) (Loc 3 1) 0) (Loc 1 0) = 2
   \<and> scent (update_scent (update_scent walled_cave (Loc 1 1) 0) (Loc 3 1) 0) (Loc 1 0)
       \<noteq> min (age_scent (update_scent walled_cave (Loc 1 1) 0) (Loc 1 0)) 2"
    by code_simp
  moreover have "\<not> scent_path (update_scent walled_cave (Loc 1 1) 0) (Loc 3 1) (Loc 1 0)"
  proof
    assume "scent_path (update_scent walled_cave (Loc 1 1) 0) (Loc 3 1) (Loc 1 0)"
    then have "3 \<le> loc_x (Loc 1 0)"
      by (rule walled_path) (simp add: update_scent_def walled_cave_def Let_def)
    then show False by simp
  qed
  ultimately show ?thesis by simp
qed

section \<open>Properties of the noise computation\<close>

lemma lev_0 [simp]: "lev ok p 0 g \<longleftrightarrow> g = p"
  by (simp add: lev_def)

lemma lev_unique: "lev ok p n g \<Longrightarrow> lev ok p m g \<Longrightarrow> n = m"
  unfolding lev_def by (meson linorder_neqE_nat)

lemma near_lev: "near ok p n g \<Longrightarrow> \<exists>m\<le>n. lev ok p m g"
proof -
  assume "near ok p n g"
  then obtain m where m: "m \<le> n" "reach ok p m g" by (auto simp: near_def)
  define l where "l = (LEAST i. reach ok p i g)"
  have "reach ok p l g" unfolding l_def using m(2) by (rule LeastI)
  moreover have "\<not> reach ok p i g" if "i < l" for i
    using that not_less_Least unfolding l_def by blast
  moreover have "l \<le> m" unfolding l_def using m(2) by (rule Least_le)
  ultimately show ?thesis using m(1) unfolding lev_def by (intro exI [of _ l]) auto
qed

lemma lev_near: "lev ok p m g \<Longrightarrow> m \<le> n \<Longrightarrow> near ok p n g"
  by (auto simp: lev_def near_def)

lemma lev_not_near: "lev ok p n g \<Longrightarrow> m < n \<Longrightarrow> \<not> near ok p m g"
  by (auto simp: lev_def near_def)

lemma near_mono: "near ok p m g \<Longrightarrow> m \<le> n \<Longrightarrow> near ok p n g"
  by (auto simp: near_def intro: order_trans)

lemma lev_Suc_ok: "lev ok p (Suc n) g \<Longrightarrow> ok g"
  by (simp add: lev_def)

lemma lev_Suc_pred:
  assumes "lev ok p (Suc n) g"
  shows "\<exists>d \<in> set ddgrid_ddd. lev ok p n (loc_sum g d)"
proof -
  from assms obtain d where d: "d \<in> set ddgrid_ddd" "reach ok p n (loc_sum g d)"
    and g: "ok g" by (auto simp: lev_def)
  have "\<not> reach ok p m (loc_sum g d)" if "m < n" for m
  proof
    assume "reach ok p m (loc_sum g d)"
    with d(1) g have "reach ok p (Suc m) g" by auto
    moreover from that have "Suc m < Suc n" by simp
    ultimately show False using assms unfolding lev_def by blast
  qed
  with d show ?thesis unfolding lev_def by blast
qed

lemma lev_SucI:
  assumes "lev ok p n h" and "d \<in> set ddgrid_ddd" and "ok (loc_sum h d)"
    and "\<not> near ok p n (loc_sum h d)"
  shows "lev ok p (Suc n) (loc_sum h d)"
proof -
  from neighbour_back [OF assms(2), of h] obtain e where
    e: "e \<in> set ddgrid_ddd" "loc_sum (loc_sum h d) e = h" by blast
  with assms(1,3) have "reach ok p (Suc n) (loc_sum h d)"
    by (auto simp: lev_def intro!: bexI [of _ e])
  moreover have "\<not> reach ok p m (loc_sum h d)" if "m < Suc n" for m
    using that assms(4) by (auto simp: near_def)
  ultimately show ?thesis unfolding lev_def by blast
qed

lemma loc_eq_iff: "loc_eq a b \<longleftrightarrow> a = b"
  by (cases a, cases b) (simp add: loc_eq_def)

lemma fold_noise_child:
  assumes "(word_of_nat lvl :: 16 word) \<noteq> 0"
  shows "\<exists>news. fold (noise_child c p lvl nxt) ds (gr, q)
                  = ((\<lambda>g. if g \<in> set news then word_of_nat lvl else gr g), q @ news)
              \<and> distinct news
              \<and> set news = {g \<in> loc_sum nxt ` set ds. can_hear c p gr g}"
proof (induction ds arbitrary: gr q)
  case Nil
  show ?case by (intro exI [of _ "[]"]) simp
next
  case (Cons d ds)
  let ?g = "loc_sum nxt d"
  let ?v = "word_of_nat lvl :: 16 word"
  show ?case
  proof (cases "can_hear c p gr ?g")
    case False
    then have 1: "noise_child c p lvl nxt d (gr, q) = (gr, q)"
      by (auto simp: noise_child_def can_hear_def Let_def loc_eq_iff)
    from Cons.IH [of gr q] obtain news where
      n: "fold (noise_child c p lvl nxt) ds (gr, q)
            = ((\<lambda>g. if g \<in> set news then ?v else gr g), q @ news)"
         "distinct news" "set news = {g \<in> loc_sum nxt ` set ds. can_hear c p gr g}"
      by blast
    show ?thesis
      using n False by (intro exI [of _ news]) (auto simp: 1)
  next
    case True
    then have 1: "noise_child c p lvl nxt d (gr, q) = (gr(?g := ?v), q @ [?g])"
      by (auto simp: noise_child_def can_hear_def Let_def loc_eq_iff)
    from Cons.IH [of "gr(?g := ?v)" "q @ [?g]"] obtain news where
      n: "fold (noise_child c p lvl nxt) ds (gr(?g := ?v), q @ [?g])
            = ((\<lambda>g. if g \<in> set news then ?v else (gr(?g := ?v)) g), (q @ [?g]) @ news)"
         "distinct news"
         "set news = {g \<in> loc_sum nxt ` set ds. can_hear c p (gr(?g := ?v)) g}"
      by blast
    have h: "can_hear c p (gr(?g := ?v)) g \<longleftrightarrow> can_hear c p gr g \<and> g \<noteq> ?g" for g
      using assms by (auto simp: can_hear_def)
    from n(3) h have notin: "?g \<notin> set news" by auto
    show ?thesis
    proof (intro exI [of _ "?g # news"] conjI)
      show "fold (noise_child c p lvl nxt) (d # ds) (gr, q)
            = ((\<lambda>g. if g \<in> set (?g # news) then ?v else gr g), q @ ?g # news)"
        using n(1) by (auto simp: 1 fun_eq_iff)
      show "distinct (?g # news)" using n(2) notin by simp
      show "set (?g # news) = {g \<in> loc_sum nxt ` set (d # ds). can_hear c p gr g}"
        using n(3) h True by auto
    qed
  qed
qed

lemma fold_noise_child_none:
  "\<forall>d \<in> set ds. \<not> can_hear c p gr (loc_sum nxt d)
   \<Longrightarrow> fold (noise_child c p lvl nxt) ds (gr, q) = (gr, q)"
  by (induction ds) (auto simp: noise_child_def can_hear_def Let_def loc_eq_iff)

lemma flooded_level_in_B:
  assumes "flooded ok p inc G0 k [] B gr" and "lev ok p (Suc k) g"
  shows "g \<in> set B"
proof -
  from lev_Suc_pred [OF assms(2)] obtain d where
    d: "d \<in> set ddgrid_ddd" "lev ok p k (loc_sum g d)" by blast
  from neighbour_back [OF d(1), of g] obtain e where
    e: "e \<in> set ddgrid_ddd" "loc_sum (loc_sum g d) e = g" by blast
  from assms(1) have "\<forall>h d. lev ok p k h \<longrightarrow> h \<notin> set [] \<longrightarrow> d \<in> set ddgrid_ddd
             \<longrightarrow> lev ok p (Suc k) (loc_sum h d) \<longrightarrow> loc_sum h d \<in> set B"
    unfolding flooded_def by blast
  from this [rule_format, OF d(2) _ e(1)] assms(2) e(2) show ?thesis by simp
qed

lemma flooded_marker:
  assumes F: "flooded ok p inc G0 k A B gr" and inc: "0 < inc"
    and q: "A @ B = x # rest" and x: "unat (gr x) = inc * Suc k"
  shows "flooded ok p inc G0 (Suc k) (rest @ [x]) [] gr"
proof -
  have A: "A = []"
  proof (rule ccontr)
    assume "A \<noteq> []"
    with q have "x \<in> set A" by (cases A) auto
    with F have "lev ok p k x" unfolding flooded_def by blast
    with F have "unat (gr x) = inc * k" unfolding flooded_def by blast
    with x inc show False by simp
  qed
  with q have B: "B = x # rest" by simp
  from F A have F0: "flooded ok p inc G0 k [] B gr" by simp
  have allB: "g \<in> set B" if "lev ok p (Suc k) g" for g
    using flooded_level_in_B [OF F0 that] .
  have Blev: "lev ok p (Suc k) b \<and> unat (gr b) = inc * Suc k" if "b \<in> set B" for b
    using F that unfolding flooded_def by blast
  show ?thesis
    unfolding flooded_def
  proof (intro conjI ballI allI impI)
    show "distinct ((rest @ [x]) @ [])"
      using F B A unfolding flooded_def by auto
  next
    fix a assume "a \<in> set (rest @ [x])"
    then have "a \<in> set B" using B by auto
    then show "lev ok p (Suc k) a" using Blev by blast
  next
    fix b :: loc assume "b \<in> set []"
    then show "lev ok p (Suc (Suc k)) b" "unat (gr b) = inc * Suc (Suc k)" by simp_all
  next
    fix g n assume l: "lev ok p n g" and n: "n \<le> Suc k"
    show "unat (gr g) = inc * n"
    proof (cases "n \<le> k")
      case True
      with F l show ?thesis unfolding flooded_def by blast
    next
      case False
      with n have "n = Suc k" by simp
      with l allB Blev show ?thesis by blast
    qed
  next
    fix g assume nn: "\<not> near ok p (Suc k) g"
    then have 1: "\<not> near ok p k g" using near_mono [of ok p k g "Suc k"] by auto
    have 2: "g \<notin> set B"
    proof
      assume "g \<in> set B"
      with Blev have "lev ok p (Suc k) g" by blast
      from lev_near [OF this order_refl] nn show False by simp
    qed
    from F 1 2 show "gr g = G0 g" unfolding flooded_def by blast
  next
    fix h d assume "lev ok p (Suc k) h" "h \<notin> set (rest @ [x])"
    with allB B have False by auto
    then show "loc_sum h d \<in> set []" ..
  qed
qed

lemma flooded_new:
  assumes F: "flooded (can_hear c p G0) p inc G0 k A B gr" and inc: "0 < inc"
    and q: "A @ B = x # rest" and x: "unat (gr x) \<noteq> inc * Suc k"
    and e: "e \<in> set ddgrid_ddd" and h: "can_hear c p gr (loc_sum x e)"
  shows "lev (can_hear c p G0) p (Suc k) (loc_sum x e)
         \<and> loc_sum x e \<notin> set A \<and> loc_sum x e \<notin> set B"
proof -
  let ?ok = "can_hear c p G0"
  let ?g = "loc_sum x e"
  have Blev: "lev ?ok p (Suc k) b \<and> unat (gr b) = inc * Suc k" if "b \<in> set B" for b
    using F that unfolding flooded_def by blast
  have Alev: "lev ?ok p k a" if "a \<in> set A" for a
    using F that unfolding flooded_def by blast
  have val: "unat (gr g) = inc * m" if "lev ?ok p m g" "m \<le> k" for g m
    using F that unfolding flooded_def by blast
  have old: "gr g = G0 g" if "\<not> near ?ok p k g" "g \<notin> set B" for g
    using F that unfolding flooded_def by blast
  have A: "A \<noteq> []"
  proof
    assume "A = []"
    with q have "x \<in> set B" by simp
    with Blev x show False by blast
  qed
  then have "x \<in> set A" using q by (cases A) auto
  then have xk: "lev ?ok p k x" by (rule Alev)
  from h have z: "gr ?g = 0" by (simp add: can_hear_def)
  have nn: "\<not> near ?ok p k ?g"
  proof
    assume "near ?ok p k ?g"
    from near_lev [OF this] obtain m where m: "m \<le> k" "lev ?ok p m ?g" by blast
    with val have "unat (gr ?g) = inc * m" by blast
    with z inc have "m = 0" by simp
    with m h show False by (simp add: can_hear_def)
  qed
  have nB: "?g \<notin> set B"
  proof
    assume "?g \<in> set B"
    with Blev have "unat (gr ?g) = inc * Suc k" by blast
    with z inc show False by simp
  qed
  have nA: "?g \<notin> set A"
  proof
    assume "?g \<in> set A"
    from lev_near [OF Alev [OF this] order_refl] nn show False by simp
  qed
  from old [OF nn nB] h have "?ok ?g" by (simp add: can_hear_def)
  with lev_SucI [OF xk e] nn have "lev ?ok p (Suc k) ?g" by simp
  with nA nB show ?thesis by simp
qed

lemma flooded_expand:
  assumes F: "flooded (can_hear c p G0) p inc G0 k A B gr" and inc: "0 < inc"
    and q: "A @ B = x # rest" and x: "unat (gr x) \<noteq> inc * Suc k"
    and d: "distinct news"
    and n: "set news = {g \<in> loc_sum x ` set ddgrid_ddd. can_hear c p gr g}"
    and fits: "news \<noteq> [] \<longrightarrow> inc * Suc k < 65536"
  shows "\<exists>A1. A = x # A1 \<and> rest = A1 @ B
          \<and> flooded (can_hear c p G0) p inc G0 k A1 (B @ news)
               (\<lambda>g. if g \<in> set news then word_of_nat (inc * Suc k) else gr g)"
proof -
  let ?ok = "can_hear c p G0"
  let ?gr = "\<lambda>g. if g \<in> set news then word_of_nat (inc * Suc k) else gr g"
  have Blev: "lev ?ok p (Suc k) b \<and> unat (gr b) = inc * Suc k" if "b \<in> set B" for b
    using F that unfolding flooded_def by blast
  have Alev: "lev ?ok p k a" if "a \<in> set A" for a
    using F that unfolding flooded_def by blast
  have val: "unat (gr g) = inc * m" if "lev ?ok p m g" "m \<le> k" for g m
    using F that unfolding flooded_def by blast
  have old: "gr g = G0 g" if "\<not> near ?ok p k g" "g \<notin> set B" for g
    using F that unfolding flooded_def by blast
  have A: "A \<noteq> []"
  proof
    assume "A = []"
    with q have "x \<in> set B" by simp
    with Blev x show False by blast
  qed
  then obtain A1 where A1: "A = x # A1" "rest = A1 @ B"
    using q by (cases A) auto
  have new: "lev ?ok p (Suc k) g \<and> g \<notin> set A \<and> g \<notin> set B" if "g \<in> set news" for g
  proof -
    from that n obtain e where e: "e \<in> set ddgrid_ddd" "g = loc_sum x e"
      and h: "can_hear c p gr g" by auto
    from flooded_new [OF F inc q x e(1)] h e(2) show ?thesis by simp
  qed
  have newval: "unat (?gr g) = inc * Suc k" if "g \<in> set news" for g
  proof -
    from that have "news \<noteq> []" by auto
    with fits have "inc * Suc k < 65536" by simp
    from cell_fits [OF this] that show ?thesis by simp
  qed
  have "flooded ?ok p inc G0 k A1 (B @ news) ?gr"
    unfolding flooded_def
  proof (intro conjI ballI allI impI)
    have "distinct (A1 @ B)" using F A1 unfolding flooded_def by simp
    moreover have "set news \<inter> set (A1 @ B) = {}" using new A1 by auto
    ultimately show "distinct (A1 @ B @ news)" using d by auto
  next
    fix a assume "a \<in> set A1"
    then show "lev ?ok p k a" using Alev A1 by simp
  next
    fix b assume b: "b \<in> set (B @ news)"
    then show "lev ?ok p (Suc k) b" using Blev new by auto
    show "unat (?gr b) = inc * Suc k"
    proof (cases "b \<in> set news")
      case True
      then show ?thesis by (rule newval)
    next
      case False
      with b Blev show ?thesis by auto
    qed
  next
    fix g m assume l: "lev ?ok p m g" and m: "m \<le> k"
    have "g \<notin> set news"
    proof
      assume "g \<in> set news"
      with new have "lev ?ok p (Suc k) g" by blast
      from lev_unique [OF this l] m show False by simp
    qed
    with val [OF l m] show "unat (?gr g) = inc * m" by simp
  next
    fix g assume "\<not> near ?ok p k g" "g \<notin> set (B @ news)"
    with old show "?gr g = G0 g" by simp
  next
    fix h e assume h: "lev ?ok p k h" "h \<notin> set A1" and e: "e \<in> set ddgrid_ddd"
      and l: "lev ?ok p (Suc k) (loc_sum h e)"
    show "loc_sum h e \<in> set (B @ news)"
    proof (cases "h = x")
      case False
      with h A1 have "h \<notin> set A" by simp
      with F h(1) e l have "loc_sum h e \<in> set B" unfolding flooded_def by blast
      then show ?thesis by simp
    next
      case True
      show ?thesis
      proof (cases "loc_sum h e \<in> set B")
        case True
        then show ?thesis by simp
      next
        case False
        from lev_not_near [OF l, of k] have "\<not> near ?ok p k (loc_sum h e)" by simp
        from old [OF this False] lev_Suc_ok [OF l]
        have "can_hear c p gr (loc_sum h e)" by (simp add: can_hear_def)
        with n e True have "loc_sum h e \<in> set news" by auto
        then show ?thesis by simp
      qed
    qed
  qed
  with A1 show ?thesis by blast
qed

text \<open>
  The neighbours that a pass of the loop gives noise, when every number of steps times
  the increment fits a cell.
\<close>

lemma noise_children:
  assumes F: "flooded (can_hear c p G0) p inc G0 k A B gr" and inc: "0 < inc"
    and q: "A @ B = x # rest" and x: "unat (gr x) \<noteq> inc * Suc k"
    and H: "\<forall>g n. lev (can_hear c p G0) p n g \<longrightarrow> inc * n < 65536"
  shows "\<exists>news. fold (noise_child c p (inc * Suc k) x) ddgrid_ddd (gr, rest)
                  = ((\<lambda>g. if g \<in> set news then word_of_nat (inc * Suc k) else gr g), rest @ news)
              \<and> distinct news
              \<and> set news = {g \<in> loc_sum x ` set ddgrid_ddd. can_hear c p gr g}
              \<and> (news \<noteq> [] \<longrightarrow> inc * Suc k < 65536)"
proof (cases "\<forall>d \<in> set ddgrid_ddd. \<not> can_hear c p gr (loc_sum x d)")
  case True
  from fold_noise_child_none [OF this]
  have "fold (noise_child c p (inc * Suc k) x) ddgrid_ddd (gr, rest) = (gr, rest)" .
  with True show ?thesis by (intro exI [of _ "[]"]) auto
next
  case False
  then obtain e where e: "e \<in> set ddgrid_ddd" "can_hear c p gr (loc_sum x e)" by blast
  from flooded_new [OF F inc q x e] have "lev (can_hear c p G0) p (Suc k) (loc_sum x e)" by simp
  with H have b: "inc * Suc k < 65536" by blast
  from inc have "0 < inc * Suc k" by simp
  with cell_fits [OF b] have "(word_of_nat (inc * Suc k) :: 16 word) \<noteq> 0" by auto
  from fold_noise_child [OF this, of c p x ddgrid_ddd gr rest] b show ?thesis by blast
qed

lemma flood_inv_step:
  assumes I: "flood_inv c p inc G0 st" and inc: "0 < inc" and b: "fst (snd st) \<noteq> []"
    and H: "\<forall>g n. lev (can_hear c p G0) p n g \<longrightarrow> inc * n < 65536"
  shows "flood_inv c p inc G0 (noise_step c p inc st)"
proof -
  obtain gr q lvl where st: "st = (gr, q, lvl)" by (cases st)
  from I st obtain k A B where k: "lvl = inc * Suc k" "q = A @ B"
    and F: "flooded (can_hear c p G0) p inc G0 k A B gr"
    by (auto simp: flood_inv_def)
  from b st obtain x rest where q: "q = x # rest" by (cases q) auto
  have qq: "A @ B = x # rest" using k q by simp
  show ?thesis
  proof (cases "unat (gr x) = lvl")
    case True
    then have s: "noise_step c p inc st = (gr, rest @ [x], lvl + inc)"
      by (simp add: noise_step_def st q)
    have xx: "unat (gr x) = inc * Suc k" using True k by simp
    from flooded_marker [OF F inc qq xx]
    have "flooded (can_hear c p G0) p inc G0 (Suc k) (rest @ [x]) [] gr" .
    with k show ?thesis
      unfolding flood_inv_def s
      by (rule_tac x = "Suc k" in exI, rule_tac x = "rest @ [x]" in exI, rule_tac x = "[]" in exI)
        simp
  next
    case False
    have xx: "unat (gr x) \<noteq> inc * Suc k" using False k by simp
    from noise_children [OF F inc qq xx H] obtain news where
      n: "fold (noise_child c p (inc * Suc k) x) ddgrid_ddd (gr, rest)
            = ((\<lambda>g. if g \<in> set news then word_of_nat (inc * Suc k) else gr g), rest @ news)"
         "distinct news" "set news = {g \<in> loc_sum x ` set ddgrid_ddd. can_hear c p gr g}"
         "news \<noteq> [] \<longrightarrow> inc * Suc k < 65536"
      by blast
    have s: "noise_step c p inc st
               = ((\<lambda>g. if g \<in> set news then word_of_nat (inc * Suc k) else gr g), rest @ news, lvl)"
      using False n(1) by (simp add: noise_step_def st q k(1) Let_def)
    from flooded_expand [OF F inc qq xx n(2,3,4)] obtain A1 where
      A1: "A = x # A1" "rest = A1 @ B"
        "flooded (can_hear c p G0) p inc G0 k A1 (B @ news)
               (\<lambda>g. if g \<in> set news then word_of_nat (inc * Suc k) else gr g)"
      by blast
    show ?thesis
      unfolding flood_inv_def s
      using A1(3) k(1) A1(2)
      by (rule_tac x = k in exI, rule_tac x = A1 in exI, rule_tac x = "B @ news" in exI) simp
  qed
qed

lemma flood_inv_init:
  assumes "G0 p = 0"
  shows "flood_inv c p inc G0 (G0, [p], 0 + inc)"
  unfolding flood_inv_def
  by (rule_tac x = 0 in exI, rule_tac x = "[p]" in exI, rule_tac x = "[]" in exI)
     (auto simp: flooded_def assms near_def)

lemma finite_in_bounds: "finite {g. square_in_bounds c g}"
proof -
  have "{g. square_in_bounds c g} \<subseteq> (\<lambda>(a, b). Loc a b) ` ({0..<width c} \<times> {0..<height c})"
  proof
    fix g assume "g \<in> {g. square_in_bounds c g}"
    then have "g = (\<lambda>(a, b). Loc a b) (loc_x g, loc_y g)"
      "(loc_x g, loc_y g) \<in> {0..<width c} \<times> {0..<height c}"
      by (simp_all add: square_in_bounds_def)
    then show "g \<in> (\<lambda>(a, b). Loc a b) ` ({0..<width c} \<times> {0..<height c})"
      by (rule image_eqI)
  qed
  then show ?thesis by (rule finite_subset) simp
qed

lemma flood_measure_step:
  assumes I: "flood_inv c p inc G0 st" and inc: "0 < inc" and b: "fst (snd st) \<noteq> []"
    and H: "\<forall>g n. lev (can_hear c p G0) p n g \<longrightarrow> inc * n < 65536"
  shows "(flood_measure c (noise_step c p inc st), flood_measure c st)
           \<in> less_than <*lex*> less_than <*lex*> less_than"
proof -
  obtain gr q lvl where st: "st = (gr, q, lvl)" by (cases st)
  from I st obtain k A B where k: "lvl = inc * Suc k" "q = A @ B"
    and F: "flooded (can_hear c p G0) p inc G0 k A B gr"
    by (auto simp: flood_inv_def)
  from b st obtain x rest where q: "q = x # rest" by (cases q) auto
  have qq: "A @ B = x # rest" using k q by simp
  show ?thesis
  proof (cases "unat (gr x) = lvl")
    case True
    then have s: "noise_step c p inc (gr, x # rest, lvl) = (gr, rest @ [x], lvl + inc)"
      by (simp add: noise_step_def)
    have xx: "unat (gr x) = inc * Suc k" using True k by simp
    from flooded_marker [OF F inc qq xx]
    have F': "flooded (can_hear c p G0) p inc G0 (Suc k) (rest @ [x]) [] gr" .
    have "unat (gr a) = lvl" if "a \<in> set (rest @ [x])" for a
    proof -
      from F' that have "lev (can_hear c p G0) p (Suc k) a" unfolding flooded_def by blast
      with F' have "unat (gr a) = inc * Suc k" unfolding flooded_def by blast
      with k show ?thesis by simp
    qed
    then have "filter (\<lambda>g. lvl + inc \<le> unat (gr g)) (rest @ [x]) = []"
      using inc by (auto simp: filter_empty_conv)
    moreover have "filter (\<lambda>g. lvl \<le> unat (gr g)) (x # rest) \<noteq> []"
      using True by simp
    ultimately show ?thesis
      unfolding st q by (simp add: flood_measure_def s)
  next
    case False
    have xx: "unat (gr x) \<noteq> inc * Suc k" using False k by simp
    from noise_children [OF F inc qq xx H] obtain news where
      n: "fold (noise_child c p (inc * Suc k) x) ddgrid_ddd (gr, rest)
            = ((\<lambda>g. if g \<in> set news then word_of_nat (inc * Suc k) else gr g), rest @ news)"
         "distinct news" "set news = {g \<in> loc_sum x ` set ddgrid_ddd. can_hear c p gr g}"
         "news \<noteq> [] \<longrightarrow> inc * Suc k < 65536"
      by blast
    let ?gr = "\<lambda>g. if g \<in> set news then word_of_nat (inc * Suc k) else gr g"
    have s: "noise_step c p inc (gr, x # rest, lvl) = (?gr, rest @ news, lvl)"
      using False n(1) by (simp add: noise_step_def k(1) Let_def)
    show ?thesis
    proof (cases "news = []")
      case True
      have "A \<noteq> []"
      proof
        assume "A = []"
        with qq have "x \<in> set B" by simp
        with F have "unat (gr x) = inc * Suc k" unfolding flooded_def by blast
        with False k show False by simp
      qed
      with qq have "x \<in> set A" by (cases A) auto
      with F have "lev (can_hear c p G0) p k x" unfolding flooded_def by blast
      with F have "unat (gr x) = inc * k" unfolding flooded_def by blast
      with k inc have "\<not> lvl \<le> unat (gr x)" by simp
      with True show ?thesis
        unfolding st q by (simp add: flood_measure_def s)
    next
      case ne: False
      with n(4) have fits: "inc * Suc k < 65536" by simp
      from inc have "0 < inc * Suc k" by simp
      with cell_fits [OF fits] have pos: "(word_of_nat (inc * Suc k) :: 16 word) \<noteq> 0" by auto
      let ?Z = "{g. square_in_bounds c g \<and> gr g = 0}"
      have sub: "set news \<subseteq> ?Z" using n(3) by (auto simp: can_hear_def)
      have "{g. square_in_bounds c g \<and> ?gr g = 0} = ?Z - set news"
        using pos by auto
      moreover have "?Z - set news \<subset> ?Z" using sub ne by (cases news) auto
      moreover have "finite ?Z" using finite_in_bounds [of c] by (rule rev_finite_subset) auto
      ultimately have "card {g. square_in_bounds c g \<and> ?gr g = 0} < card ?Z"
        by (simp add: psubset_card_mono)
      then show ?thesis
        unfolding st q by (simp add: flood_measure_def s)
    qed
  qed
qed

lemma noise_loop_ends:
  assumes "G0 p = 0" and "0 < inc"
    and H: "\<forall>g n. lev (can_hear c p G0) p n g \<longrightarrow> inc * n < 65536"
  shows "\<exists>gr lvl. noise_loop c p inc (G0, [p], 0 + inc) = Some (gr, [], lvl)
                  \<and> flood_inv c p inc G0 (gr, [], lvl)"
proof -
  let ?b = "\<lambda>st :: flood. fst (snd st) \<noteq> []"
  have "\<exists>t. while_option ?b (noise_step c p inc) (G0, [p], 0 + inc) = Some t"
  proof (rule wf_rel_while_option_Some [where P = "flood_inv c p inc G0"
        and R = "inv_image (less_than <*lex*> less_than <*lex*> less_than) (flood_measure c)"])
    show "wf (inv_image (less_than <*lex*> less_than <*lex*> less_than) (flood_measure c))"
      by (intro wf_inv_image wf_lex_prod wf_less_than)
    show "(noise_step c p inc s, s)
            \<in> inv_image (less_than <*lex*> less_than <*lex*> less_than) (flood_measure c)"
      if "flood_inv c p inc G0 s \<and> fst (snd s) \<noteq> []" for s
      using flood_measure_step [of c p inc G0 s] that assms(2) H by (simp add: inv_image_def)
    show "flood_inv c p inc G0 (noise_step c p inc s)"
      if "flood_inv c p inc G0 s \<and> fst (snd s) \<noteq> []" for s
      using flood_inv_step [of c p inc G0 s] that assms(2) H by simp
    show "flood_inv c p inc G0 (G0, [p], 0 + inc)"
      by (rule flood_inv_init) (rule assms(1))
  qed
  then obtain t where t: "while_option ?b (noise_step c p inc) (G0, [p], 0 + inc) = Some t"
    by blast
  from while_option_stop [OF t] have e: "fst (snd t) = []" by simp
  have i0: "flood_inv c p inc G0 (G0, [p], 0 + inc)"
    by (rule flood_inv_init) (rule assms(1))
  have "flood_inv c p inc G0 t"
    by (rule while_option_rule [where P = "flood_inv c p inc G0", OF _ t i0])
       (simp add: flood_inv_step assms(2) H)
  with t e show ?thesis
    by (cases t) (auto simp: noise_loop_def)
qed

lemma flooded_end_levels:
  assumes "flooded ok p inc G0 k [] [] gr" and "lev ok p n g"
  shows "n \<le> k"
proof (rule ccontr)
  assume "\<not> n \<le> k"
  then have "k < n" by simp
  then show False using assms(2)
  proof (induction n arbitrary: g)
    case 0
    then show ?case by simp
  next
    case (Suc n)
    show ?case
    proof (cases "n = k")
      case True
      from flooded_level_in_B [OF assms(1)] Suc.prems(2) True show False by auto
    next
      case False
      with Suc.prems(1) have "k < n" by simp
      from lev_Suc_pred [OF Suc.prems(2)] obtain d where "lev ok p n (loc_sum g d)" by blast
      from Suc.IH [OF \<open>k < n\<close> this] show False .
    qed
  qed
qed

lemma flood_inv_end:
  assumes "flood_inv c p inc G0 (gr, [], lvl)"
  shows "(\<forall>g n. lev (can_hear c p G0) p n g \<longrightarrow> unat (gr g) = inc * n)
       \<and> (\<forall>g. (\<forall>n. \<not> reach (can_hear c p G0) p n g) \<longrightarrow> gr g = G0 g)"
proof -
  from assms obtain k where F: "flooded (can_hear c p G0) p inc G0 k [] [] gr"
    by (auto simp: flood_inv_def)
  have 1: "unat (gr g) = inc * n" if "lev (can_hear c p G0) p n g" for g n
    using F that flooded_end_levels [OF F that] unfolding flooded_def by blast
  have 2: "gr g = G0 g" if "\<forall>n. \<not> reach (can_hear c p G0) p n g" for g
  proof -
    from that have "\<not> near (can_hear c p G0) p k g" by (simp add: near_def)
    with F show ?thesis unfolding flooded_def by simp
  qed
  from 1 2 show ?thesis by blast
qed

lemma reach_sub:
  assumes "\<And>g. ok2 g \<Longrightarrow> ok1 g"
  shows "reach ok2 p n g \<Longrightarrow> reach ok1 p n g"
  by (induction n arbitrary: g) (auto simp: assms)

lemma reach_cut:
  assumes "\<And>g. ok1 g \<Longrightarrow> g \<noteq> p \<Longrightarrow> ok2 g"
  shows "reach ok1 p n g \<Longrightarrow> \<exists>m\<le>n. reach ok2 p m g"
proof (induction n arbitrary: g)
  case 0
  then show ?case by simp
next
  case (Suc n)
  show ?case
  proof (cases "g = p")
    case True
    then have "reach ok2 p 0 g" by simp
    then show ?thesis by blast
  next
    case False
    from Suc.prems obtain d where d: "d \<in> set ddgrid_ddd" "reach ok1 p n (loc_sum g d)"
      and g: "ok1 g" by auto
    from Suc.IH [OF d(2)] obtain m where m: "m \<le> n" "reach ok2 p m (loc_sum g d)" by blast
    from assms [OF g False] d(1) m(2) have "reach ok2 p (Suc m) g" by auto
    with m(1) show ?thesis by (intro exI [of _ "Suc m"]) simp
  qed
qed

lemma lev_same:
  assumes 1: "\<And>g. ok2 g \<Longrightarrow> ok1 g" and 2: "\<And>g. ok1 g \<Longrightarrow> g \<noteq> p \<Longrightarrow> ok2 g"
  shows "lev ok1 p n g \<longleftrightarrow> lev ok2 p n g"
proof
  assume l: "lev ok1 p n g"
  then have "reach ok1 p n g" by (simp add: lev_def)
  from reach_cut [of ok1 p ok2, OF 2 this] obtain m where m: "m \<le> n" "reach ok2 p m g" by blast
  from reach_sub [of ok2 ok1, OF 1 m(2)] l m(1) have "m = n"
    unfolding lev_def using le_neq_implies_less by blast
  with m have "reach ok2 p n g" by simp
  moreover have "\<not> reach ok2 p i g" if "i < n" for i
    using reach_sub [of ok2 ok1 p i g, OF 1] l that unfolding lev_def by blast
  ultimately show "lev ok2 p n g" unfolding lev_def by blast
next
  assume l: "lev ok2 p n g"
  then have r: "reach ok1 p n g" using reach_sub [of ok2 ok1, OF 1] by (simp add: lev_def)
  moreover have "\<not> reach ok1 p i g" if "i < n" for i
  proof
    assume "reach ok1 p i g"
    from reach_cut [of ok1 p ok2, OF 2 this] obtain m where "m \<le> i" "reach ok2 p m g" by blast
    with that l show False unfolding lev_def by (meson le_less_trans)
  qed
  ultimately show "lev ok1 p n g" unfolding lev_def by blast
qed

lemma unreached_same:
  assumes 1: "\<And>g. ok2 g \<Longrightarrow> ok1 g" and 2: "\<And>g. ok1 g \<Longrightarrow> g \<noteq> p \<Longrightarrow> ok2 g"
  shows "(\<forall>n. \<not> reach ok1 p n g) \<longleftrightarrow> (\<forall>n. \<not> reach ok2 p n g)"
  using reach_sub [of ok2 ok1 p _ g, OF 1] reach_cut [of ok1 p ok2 _ g, OF 2] by blast

lemma can_hear_carries:
  "can_hear c p ((silence c)(p := 0)) g \<longleftrightarrow> carries c g \<and> g \<noteq> p"
  by (auto simp: can_hear_def carries_def sound_passes_def silence_cell)

lemma make_noise_result:
  assumes "\<forall>g n. lev (carries c) p n g \<longrightarrow> (if covertracks \<noteq> 0 then 4 else 1) * n < (65536 :: nat)"
  shows "\<exists>gr lvl. make_noise c p covertracks = Some (c\<lparr>noise := gr\<rparr>)
     \<and> flood_inv c p (if covertracks \<noteq> 0 then 4 else 1) ((silence c)(p := 0)) (gr, [], lvl)"
proof -
  let ?inc = "if covertracks \<noteq> 0 then 4 else 1 :: nat"
  let ?G0 = "(silence c)(p := 0)"
  have same: "lev (can_hear c p ?G0) p n g \<longleftrightarrow> lev (carries c) p n g" for n g
    using lev_same [of "can_hear c p ?G0" "carries c" p n g] by (simp add: can_hear_carries)
  have "?G0 p = 0" "0 < ?inc" by simp_all
  moreover have "\<forall>g n. lev (can_hear c p ?G0) p n g \<longrightarrow> ?inc * n < 65536"
    using assms unfolding same .
  ultimately obtain gr lvl where
    l: "noise_loop c p ?inc (?G0, [p], 0 + ?inc) = Some (gr, [], lvl)"
       "flood_inv c p ?inc ?G0 (gr, [], lvl)"
    using noise_loop_ends [where ?G0.0 = "?G0" and p = p and inc = "?inc" and c = c] by blast
  have "make_noise c p covertracks = Some (c\<lparr>noise := gr\<rparr>)"
    unfolding make_noise_def Let_def using l(1) by simp
  with l(2) show ?thesis by blast
qed

text \<open>
  Claim C1, amended. For every run of \<^verbatim>\<open>make_noise\<close> with the player on the level: let
  a walk be a sequence of steps to the 8 neighbours from the player's cell through
  cells that carry the noise, that is, cells in bounds whose terrain transmits sound and
  that either belong to the rows and columns which the reset loop visits or held noise
  0 before the run. If the least number of steps to each cell that a walk reaches,
  times the increment (4 while the track-covering counter is not zero, 1 otherwise),
  fits a cell of the noise map, then the run ends and changes nothing but the noise map;
  the player's own cell holds 0; every cell that a walk reaches holds its least number
  of steps times the increment; and every other cell, among them every cell other than
  the player's whose terrain blocks sound, holds 0 if the reset loop visits it and
  what it held before the run if not.
\<close>

theorem make_noise_distances:
  assumes "square_in_bounds c p"
    and "\<forall>g n. lev (carries c) p n g \<longrightarrow> (if covertracks \<noteq> 0 then 4 else 1) * n < (65536 :: nat)"
  shows "\<exists>c'. make_noise c p covertracks = Some c'
           \<and> c' = c\<lparr>noise := noise c'\<rparr>
           \<and> noise c' p = 0
           \<and> (\<forall>g n. lev (carries c) p n g \<longrightarrow>
                 unat (noise c' g) = (if covertracks \<noteq> 0 then 4 else 1) * n)
           \<and> (\<forall>g. (\<forall>n. \<not> reach (carries c) p n g) \<longrightarrow>
                 noise c' g = (if interior c g then 0 else noise c g))
           \<and> (\<forall>g. square_isnoflow c g \<longrightarrow> g \<noteq> p \<longrightarrow>
                 noise c' g = (if interior c g then 0 else noise c g))"
proof -
  let ?inc = "if covertracks \<noteq> 0 then 4 else 1 :: nat"
  let ?G0 = "(silence c)(p := 0)"
  let ?ok = "can_hear c p ?G0"
  from make_noise_result [OF assms(2)] obtain gr lvl where
    m: "make_noise c p covertracks = Some (c\<lparr>noise := gr\<rparr>)"
    and I: "flood_inv c p ?inc ?G0 (gr, [], lvl)" by blast
  have ok1: "carries c g" if "?ok g" for g
    using that by (simp add: can_hear_carries)
  have ok2: "?ok g" if "carries c g" "g \<noteq> p" for g
    using that by (simp add: can_hear_carries)
  have v: "unat (gr g) = ?inc * n" if "lev ?ok p n g" for g n
    using flood_inv_end [OF I] that by blast
  have u: "gr g = ?G0 g" if "\<forall>n. \<not> reach ?ok p n g" for g
    using flood_inv_end [OF I] that by blast
  have dist: "unat (gr g) = ?inc * n" if "lev (carries c) p n g" for g n
    using v [of n g] that lev_same [of ?ok "carries c" p n g, OF ok1 ok2] by blast
  have unreached: "gr g = (if interior c g then 0 else noise c g)"
    if "\<forall>n. \<not> reach (carries c) p n g" for g
  proof -
    from that have "\<not> reach (carries c) p 0 g" by blast
    then have "g \<noteq> p" by simp
    with u [of g] that unreached_same [of ?ok "carries c" p g, OF ok1 ok2]
    show ?thesis by (simp add: silence_cell)
  qed
  have blocked: "gr g = (if interior c g then 0 else noise c g)"
    if "square_isnoflow c g" "g \<noteq> p" for g
  proof (rule unreached, rule allI)
    fix n show "\<not> reach (carries c) p n g"
      using that by (cases n) (simp_all add: carries_def sound_passes_def)
  qed
  have "unat (gr p) = 0" using dist [of 0 p] by simp
  then have own: "gr p = 0" by (simp add: unat_eq_0)
  show ?thesis
    using m dist unreached blocked own
    by (intro exI [of _ "c\<lparr>noise := gr\<rparr>"]) simp
qed

text \<open>
  A least walk enters a cell at most once, so that the least number of steps to a cell
  is below the number of cells of the level.
\<close>

lemma lev_below: "lev ok p n g \<Longrightarrow> i \<le> n \<Longrightarrow> \<exists>h. lev ok p i h"
proof (induction n arbitrary: g)
  case 0
  then show ?case by auto
next
  case (Suc n)
  show ?case
  proof (cases "i = Suc n")
    case True
    with Suc.prems(1) show ?thesis by blast
  next
    case False
    with Suc.prems(2) have "i \<le> n" by simp
    moreover from lev_Suc_pred [OF Suc.prems(1)] obtain d where "lev ok p n (loc_sum g d)" by blast
    ultimately show ?thesis by (rule Suc.IH [rotated])
  qed
qed

lemma lev_count:
  assumes "lev ok p n g" and "finite S" and "p \<in> S" and "\<And>h. ok h \<Longrightarrow> h \<in> S"
  shows "n < card S"
proof -
  define f where "f i = (SOME h. lev ok p i h)" for i
  have f: "lev ok p i (f i)" if "i \<le> n" for i
    unfolding f_def using lev_below [OF assms(1) that] by (rule someI_ex)
  have "inj_on f {..n}"
  proof (rule inj_onI)
    fix i j assume "i \<in> {..n}" "j \<in> {..n}" "f i = f j"
    with f [of i] f [of j] show "i = j" by (auto dest: lev_unique)
  qed
  then have "card (f ` {..n}) = Suc n" by (simp add: card_image)
  moreover have "f ` {..n} \<subseteq> S"
  proof
    fix h assume "h \<in> f ` {..n}"
    then obtain i where i: "i \<le> n" "h = f i" by auto
    from f [OF i(1)] i(2) assms(3,4) show "h \<in> S"
      by (cases i) (auto dest: lev_Suc_ok)
  qed
  ultimately have "Suc n \<le> card S" using assms(2) by (metis card_mono)
  then show ?thesis by simp
qed

lemma card_in_bounds: "card {g. square_in_bounds c g} = nat (width c) * nat (height c)"
proof -
  have "{g. square_in_bounds c g} = (\<lambda>(a, b). Loc a b) ` ({0..<width c} \<times> {0..<height c})"
  proof (intro set_eqI iffI)
    fix g assume "g \<in> {g. square_in_bounds c g}"
    then have "g = (\<lambda>(a, b). Loc a b) (loc_x g, loc_y g)"
      "(loc_x g, loc_y g) \<in> {0..<width c} \<times> {0..<height c}"
      by (simp_all add: square_in_bounds_def)
    then show "g \<in> (\<lambda>(a, b). Loc a b) ` ({0..<width c} \<times> {0..<height c})"
      by (rule image_eqI)
  next
    fix g assume "g \<in> (\<lambda>(a, b). Loc a b) ` ({0..<width c} \<times> {0..<height c})"
    then show "g \<in> {g. square_in_bounds c g}" by (auto simp: square_in_bounds_def)
  qed
  moreover have "inj_on (\<lambda>(a, b). Loc a b) ({0..<width c} \<times> {0..<height c})"
    by (auto simp: inj_on_def)
  ultimately show ?thesis by (simp add: card_image)
qed

lemma lev_in_level:
  assumes "square_in_bounds c p" and "lev (carries c) p n g"
  shows "n < nat (width c) * nat (height c)"
proof -
  have "n < card {g. square_in_bounds c g}"
    using assms(2) finite_in_bounds
  proof (rule lev_count)
    show "p \<in> {g. square_in_bounds c g}" using assms(1) by simp
    show "h \<in> {g. square_in_bounds c g}" if "carries c h" for h
      using that by (simp add: carries_def sound_passes_def)
  qed
  then show ?thesis by (simp add: card_in_bounds)
qed

theorem make_noise_distances_witness:
  "square_in_bounds sample_cave (Loc 1 1)
   \<and> lev (carries sample_cave) (Loc 1 1) 2 (Loc 3 3)
   \<and> map_option (noise_at (Loc 3 3)) (make_noise sample_cave (Loc 1 1) 0) = Some 2
   \<and> map_option (noise_at (Loc 3 3)) (make_noise sample_cave (Loc 1 1) 7) = Some 8
   \<and> map_option (noise_at (Loc 1 1)) (make_noise sample_cave (Loc 1 1) 0) = Some 0
   \<and> square_isnoflow sample_cave (Loc 4 3) \<and> \<not> interior sample_cave (Loc 4 3)
   \<and> map_option (noise_at (Loc 4 3)) (make_noise sample_cave (Loc 1 1) 0)
       = Some (noise sample_cave (Loc 4 3))"
proof -
  have b: "square_in_bounds sample_cave (Loc 1 1)"
    "square_isnoflow sample_cave (Loc 4 3)" "\<not> interior sample_cave (Loc 4 3)"
    by (simp_all add: square_in_bounds_def interior_def sample_cave_def)
  have r: "reach (carries sample_cave) (Loc 1 1) (Suc (Suc 0)) (Loc 3 3)"
    by (simp add: carries_def sound_passes_def square_in_bounds_def sample_cave_def ddgrid_ddd_def
        loc_sum_def)
  have n: "\<not> reach (carries sample_cave) (Loc 1 1) m (Loc 3 3)" if "m < 2" for m
  proof -
    from that have "m = 0 \<or> m = Suc 0" by auto
    then show ?thesis
      by (auto simp: ddgrid_ddd_def loc_sum_def)
  qed
  from r n have l: "lev (carries sample_cave) (Loc 1 1) 2 (Loc 3 3)"
    unfolding lev_def by (simp add: numeral_2_eq_2)
  have "n < 25" if "lev (carries sample_cave) (Loc 1 1) n g" for n g
    using lev_in_level [OF b(1) that] by (simp add: sample_cave_def)
  then have h: "\<forall>g n. lev (carries sample_cave) (Loc 1 1) n g \<longrightarrow>
             (if covertracks \<noteq> 0 then 4 else 1) * n < (65536 :: nat)" for covertracks :: int
    by fastforce
  from make_noise_distances [OF b(1) h, of 0] obtain c0 where
    c0: "make_noise sample_cave (Loc 1 1) 0 = Some c0" "noise c0 (Loc 1 1) = 0"
      "\<forall>g n. lev (carries sample_cave) (Loc 1 1) n g \<longrightarrow>
         unat (noise c0 g) = (if (0 :: int) \<noteq> 0 then 4 else 1) * n"
      "\<forall>g. square_isnoflow sample_cave g \<longrightarrow> g \<noteq> Loc 1 1 \<longrightarrow>
         noise c0 g = (if interior sample_cave g then 0 else noise sample_cave g)"
    by blast
  from c0(3) [rule_format, OF l] have "unat (noise c0 (Loc 3 3)) = 2" by simp
  then have 1: "noise c0 (Loc 3 3) = 2" by (rule cell_value [where n = 2, simplified])
  from c0(4) [rule_format, OF b(2)] b(3)
  have 2: "noise c0 (Loc 4 3) = noise sample_cave (Loc 4 3)" by simp
  from make_noise_distances [OF b(1) h, of 7] obtain c7 where
    c7: "make_noise sample_cave (Loc 1 1) 7 = Some c7"
      "\<forall>g n. lev (carries sample_cave) (Loc 1 1) n g \<longrightarrow>
         unat (noise c7 g) = (if (7 :: int) \<noteq> 0 then 4 else 1) * n"
    by blast
  from c7(2) [rule_format, OF l] have "unat (noise c7 (Loc 3 3)) = 8" by simp
  then have 3: "noise c7 (Loc 3 3) = 8" by (rule cell_value [where n = 8, simplified])
  from b l c0(1,2) c7(1) 1 2 3 show ?thesis by (simp add: noise_at_def)
qed

text \<open>
  The claim as it stands fails for a cell of the outermost rows and columns that holds
  noise from an earlier run. On the level without blocking terrain, a run with the
  player in the middle gives the corner cell the noise 2. A second run with the player
  next to that corner does not reset the corner cell and skips it, because it already
  has noise: it still holds 2, although it is one step from the player.
\<close>

theorem make_noise_stale_counterexample:
  "square_in_bounds open_cave (Loc 0 0) \<and> \<not> square_isnoflow open_cave (Loc 0 0)
   \<and> map_option (noise_at (Loc 0 0)) (make_noise open_cave (Loc 2 2) 0) = Some 2
   \<and> reach (sound_passes open_cave) (Loc 1 1) (Suc 0) (Loc 0 0)
   \<and> map_option (noise_at (Loc 0 0))
         (Option.bind (make_noise open_cave (Loc 2 2) 0) (\<lambda>c. make_noise c (Loc 1 1) 0))
       = Some 2"
  by code_simp

end
